theory Spec2Isabelle
  imports Main "HOL-Library.Word" "HOL-Library.Multiset"
begin

section \<open>Worker-count resolution (\<open>runtime_threads\<close>)\<close>

text \<open>
  The three configuration macros of \<open>async.h\<close> are \<open>int\<close> literals that a build may
  override (\<open>-DASYNC_NUM_THREADS=...\<close>); the header's defaults are 4, 1 and 64.
\<close>

record macros =
  ASYNC_NUM_THREADS :: int
  ASYNC_MIN_THREADS :: int
  ASYNC_MAX_THREADS :: int

definition default_macros :: macros where
  "default_macros =
     \<lparr>ASYNC_NUM_THREADS = 4, ASYNC_MIN_THREADS = 1, ASYNC_MAX_THREADS = 64\<rparr>"

text \<open>Conversion of an \<open>int\<close> to the 64-bit unsigned \<open>size_t\<close>, read back as a number.\<close>

definition size_t_of_int :: "int \<Rightarrow> nat" where
  "size_t_of_int v = nat (v mod 2 ^ 64)"

text \<open>\<open>static constexpr size_t threads = ASYNC_NUM_THREADS;\<close>\<close>

definition threads :: "macros \<Rightarrow> nat" where
  "threads m = size_t_of_int (ASYNC_NUM_THREADS m)"

text \<open>
  \<open>std::atoi\<close> of the C library: leading white space is skipped, an optional sign is read,
  then decimal digits up to the first character that is not one; with no digits the value
  is 0. The result is an \<open>int\<close> of 32 bits; when the number read cannot be represented in
  it the behaviour is undefined: \<open>None\<close>.
\<close>

definition isspace :: "char \<Rightarrow> bool" where
  "isspace c = ((of_char c :: nat) = 32 \<or> (9 \<le> (of_char c :: nat) \<and> (of_char c :: nat) \<le> 13))"

definition isdigit :: "char \<Rightarrow> bool" where
  "isdigit c = (48 \<le> (of_char c :: nat) \<and> (of_char c :: nat) \<le> 57)"

fun atoi_digits :: "int \<Rightarrow> string \<Rightarrow> int" where
  "atoi_digits acc [] = acc"
| "atoi_digits acc (c # cs) =
     (if isdigit c then atoi_digits (10 * acc + (int (of_char c) - 48)) cs else acc)"

definition atoi_read :: "string \<Rightarrow> int" where
  "atoi_read s =
     (case dropWhile isspace s of
        [] \<Rightarrow> 0
      | c # cs \<Rightarrow>
          if c = CHR ''-'' then - atoi_digits 0 cs
          else if c = CHR ''+'' then atoi_digits 0 cs
          else atoi_digits 0 (c # cs))"

definition atoi :: "string \<Rightarrow> int option" where
  "atoi s =
     (let v = atoi_read s
      in if - (2 ^ 31) \<le> v \<and> v < 2 ^ 31 then Some v else None)"

text \<open>
  The function-local \<open>static size_t _threads\<close> lives as long as the process. The state
  also counts the calls of \<open>std::getenv\<close>, the one effect of the function besides the
  cache.
\<close>

record process =
  static_threads :: nat
  getenv_calls :: nat

definition process_start :: process where
  "process_start = \<lparr>static_threads = 0, getenv_calls = 0\<rparr>"

text \<open>
  One call of \<open>runtime_threads\<close>; \<open>env\<close> is what \<open>getenv("ASYNC_NUM_THREADS")\<close> would
  return at that moment (\<open>None\<close> for a null pointer). The result is \<open>None\<close> when the call
  runs into the undefined behaviour of \<open>std::atoi\<close>.
\<close>

definition runtime_threads ::
  "macros \<Rightarrow> string option \<Rightarrow> process \<Rightarrow> (nat \<times> process) option" where
  "runtime_threads m env p =
     (if static_threads p = 0 then
        (let p1 = p\<lparr>getenv_calls := getenv_calls p + 1\<rparr>
         in case env of
              Some env_async \<Rightarrow>
                (case atoi env_async of
                   None \<Rightarrow> None
                 | Some n \<Rightarrow>
                     (let v = size_t_of_int
                                (min (ASYNC_MAX_THREADS m) (max (ASYNC_MIN_THREADS m) n))
                      in Some (v, p1\<lparr>static_threads := v\<rparr>)))
            | None \<Rightarrow> (let v = threads m in Some (v, p1\<lparr>static_threads := v\<rparr>)))
      else Some (static_threads p, p))"

text \<open>
  A process lifetime: successive calls, each seeing the environment of its moment. The
  result is the list of returned values and the final process state.
\<close>

fun lifetime ::
  "macros \<Rightarrow> string option list \<Rightarrow> process \<Rightarrow> (nat list \<times> process) option" where
  "lifetime m [] p = Some ([], p)"
| "lifetime m (env # envs) p =
     (case runtime_threads m env p of
        None \<Rightarrow> None
      | Some (v, p1) \<Rightarrow>
          (case lifetime m envs p1 of
             None \<Rightarrow> None
           | Some (vs, p2) \<Rightarrow> Some (v # vs, p2)))"


section \<open>Compile-time partition (\<open>chunk_of_sequence\<close>)\<close>

type_synonym size_t = "64 word"

text \<open>
  \<open>std::make_integer_sequence<T, n>\<close> names a type with a pack of \<open>n\<close> elements, and no
  implementation forms a pack of any length. \<open>g++\<close>, the compiler of the Makefiles,
  diagnoses the argument of \<open>__integer_pack\<close> above a bound near \<open>2^28\<close> and exhausts its
  resources before that; the bound is taken as the limit here. Every use of the limit
  below is at a pack of at most 100 elements, at a pack of more than \<open>2^63\<close> elements, or
  under the hypothesis that the limit is respected.
\<close>

definition pack_limit :: int where
  "pack_limit = 2 ^ 28"

text \<open>
  \<open>make_stepped_sequence<T, N0, Nn, Ns>\<close>: the pack \<open>N0 + Is * Ns\<close> for
  \<open>Is = 0, ..., (Nn - N0 + Ns - 1) / Ns - 1\<close>, of length \<open>stepped_length\<close>. The alias names
  a type when the step is not zero and the length is within the limit.
\<close>

definition stepped_length :: "size_t \<Rightarrow> size_t \<Rightarrow> size_t \<Rightarrow> size_t" where
  "stepped_length N0 Nn Ns = (Nn - N0 + Ns - 1) div Ns"

definition make_stepped_sequence :: "size_t \<Rightarrow> size_t \<Rightarrow> size_t \<Rightarrow> size_t list" where
  "make_stepped_sequence N0 Nn Ns =
     map (\<lambda>Is. N0 + of_nat Is * Ns) [0 ..< unat (stepped_length N0 Nn Ns)]"

text \<open>
  The static members of \<open>chunk_of_sequence<T, N0, Nn, Ns, Ci, Cn>\<close> at \<open>T = size_t\<close>, the
  index type of every use in the repository. All arithmetic is unsigned 64-bit and wraps.
  A zero step or a zero chunk count divides by zero inside a constant expression, which
  makes the instantiation ill-formed: \<open>None\<close>. The member alias \<open>type\<close> is instantiated
  with the class, so the instantiation is also ill-formed when
  \<open>make_stepped_sequence<T, chunk_start, chunk_end, Ns>\<close> is longer than a pack can be.
\<close>

record chunk_constants =
  total_n :: size_t
  chunk_size :: size_t
  offset :: size_t
  count_n :: size_t
  chunk_start :: size_t
  chunk_end :: size_t

definition chunk_of_sequence ::
  "size_t \<Rightarrow> size_t \<Rightarrow> size_t \<Rightarrow> size_t \<Rightarrow> size_t \<Rightarrow> chunk_constants option" where
  "chunk_of_sequence N0 Nn Ns Ci Cn =
     (if Ns = 0 \<or> Cn = 0 then None
      else
        (let total = (Nn - N0 + Ns - 1) div Ns;
             csize = (total + Cn - 1) div Cn;
             off = Ci * csize;
             cnt = (if off + csize > total then total - off else csize);
             cstart = N0 + off * Ns;
             cend = cstart + cnt * Ns
         in if pack_limit < uint (stepped_length cstart cend Ns) then None
            else Some \<lparr>total_n = total, chunk_size = csize, offset = off, count_n = cnt,
                       chunk_start = cstart, chunk_end = cend\<rparr>))"

text \<open>The member \<open>type\<close> of a chunk.\<close>

definition chunk_type :: "chunk_constants \<Rightarrow> size_t \<Rightarrow> size_t list" where
  "chunk_type c Ns = make_stepped_sequence (chunk_start c) (chunk_end c) Ns"


section \<open>Dynamic partition (the launch loop of \<open>async_for_each\<close>)\<close>

text \<open>
  Iterators are positions counted along the range; \<open>[begin, end)\<close> is a valid range when
  \<open>begin \<le> end\<close>, and \<open>std::ranges::distance\<close> is then the difference. A chunk is what
  the lambda of one worker captures by value.
\<close>

record chunk =
  local_chunk_begin :: nat
  local_chunk_end :: nat
  idx_offset :: nat
  thread_id :: nat

text \<open>\<open>while (steps-- && chunk_end != end) ++chunk_end;\<close>\<close>

fun advance :: "nat \<Rightarrow> nat \<Rightarrow> nat \<Rightarrow> nat" where
  "advance 0 it e = it"
| "advance (Suc steps) it e = (if it \<noteq> e then advance steps (Suc it) e else it)"

text \<open>
  The loop \<open>for (size_t i = 0; i < threads; ++i)\<close>, from the state \<open>(i, chunk_begin)\<close>;
  \<open>ra\<close> is \<open>is_random_access_iterator_v<I>\<close>.
\<close>

function launch_loop ::
  "bool \<Rightarrow> nat \<Rightarrow> nat \<Rightarrow> nat \<Rightarrow> nat \<Rightarrow> nat \<Rightarrow> nat \<Rightarrow> chunk list" where
  "launch_loop ra e sz nthreads csize i chunk_begin =
     (if i < nthreads then
        (let chunk_end =
               (if ra then (if i = nthreads - 1 then e else chunk_begin + csize)
                else advance (if i = nthreads - 1 then sz else csize) chunk_begin e);
             chunk_len = chunk_end - chunk_begin;
             idx_off = i * chunk_len
         in \<lparr>local_chunk_begin = chunk_begin, local_chunk_end = chunk_end,
              idx_offset = idx_off, thread_id = i\<rparr>
            # launch_loop ra e sz nthreads csize (Suc i) chunk_end)
      else [])"
  by pat_completeness auto
termination
  by (relation "measure (\<lambda>(ra, e, sz, nthreads, csize, i, chunk_begin). nthreads - i)") auto

declare launch_loop.simps [simp del]

datatype fault = Division_by_zero | Ill_formed

text \<open>
  The head of the dynamic \<open>async_for_each\<close>: the size test, the clamp of \<open>threads\<close>, the
  division, and the launch loop. An empty range returns before anything is launched; a
  zero divisor in \<open>size / threads\<close> is undefined behaviour, kept as a fault.
\<close>

definition partition_chunks :: "bool \<Rightarrow> nat \<Rightarrow> nat \<Rightarrow> nat \<Rightarrow> fault + chunk list" where
  "partition_chunks ra b e nthreads =
     (let sz = e - b in
      if sz = 0 then Inr []
      else
        (let nthreads = min nthreads sz in
         if nthreads = 0 then Inl Division_by_zero
         else Inr (launch_loop ra e sz nthreads (sz div nthreads) 0 b)))"


section \<open>The dispatch protocol\<close>

text \<open>
  The user callable, in one of the shapes the lambda accepts; the shape is fixed when the
  template is instantiated (\<open>if constexpr\<close>). The element \<open>*it\<close> is identified by its
  position. A result \<open>Some e\<close> is the exception \<open>e\<close> thrown by the call.
\<close>

datatype 'e callable =
    Elem "nat \<Rightarrow> 'e option"
  | Elem_Idx "nat \<Rightarrow> nat \<Rightarrow> 'e option"
  | Elem_Idx_Tid "nat \<Rightarrow> nat \<Rightarrow> nat \<Rightarrow> 'e option"

datatype 'e index_callable =
    Index "size_t \<Rightarrow> 'e option"
  | Index_Tid "size_t \<Rightarrow> nat \<Rightarrow> 'e option"

text \<open>
  What a call can depend on besides the shared state: the callable of the entry point in
  use, the progress sink, and whether \<open>get()\<close> on the \<open>k\<close>-th future throws (a failure of
  the launching facility).
\<close>

record 'e env =
  callable :: "'e callable"
  index_callable :: "'e index_callable"
  progress :: "nat \<Rightarrow> 'e option"
  future_get :: "nat \<Rightarrow> 'e option"

text \<open>
  The call in the loop body, \<open>f(*it, idx++, i)\<close>, \<open>f(*it, idx++)\<close> or \<open>f(*it)\<close>: the extra
  arguments passed, the outcome, and \<open>idx\<close> afterwards.
\<close>

fun invoke :: "'e callable \<Rightarrow> nat \<Rightarrow> nat \<Rightarrow> nat \<Rightarrow> nat list \<times> 'e option \<times> nat" where
  "invoke (Elem_Idx_Tid g) it idx i = ([idx, i], g it idx i, Suc idx)"
| "invoke (Elem_Idx g) it idx i = ([idx], g it idx, Suc idx)"
| "invoke (Elem g) it idx i = ([], g it, idx)"

text \<open>The call in \<open>for_each_index\<close>: \<open>f(I + Ns)\<close> or \<open>f(I + Ns, thread_id)\<close>.\<close>

fun invoke_index :: "'e index_callable \<Rightarrow> size_t \<Rightarrow> nat \<Rightarrow> nat list \<times> 'e option" where
  "invoke_index (Index g) v tid = ([], g v)"
| "invoke_index (Index_Tid g) v tid = ([tid], g v tid)"

datatype tid = Main | Worker nat

text \<open>
  The trace of a call: invocations of the callable (worker, element position or index
  value, extra arguments, outcome), a worker leaving its loop on the cancellation flag
  (worker, position not processed), \<open>fetch_add\<close> on the counter (worker, value after the
  increment), invocations of the sink (worker, argument), \<open>get()\<close> on a future, and
  writes of the failure cell.
\<close>

datatype 'e event =
    Call nat nat "nat list" "'e option"
  | Break nat nat
  | Incr nat nat
  | Sink nat nat
  | Get nat
  | Store tid 'e

text \<open>
  The \<open>catch (...)\<close> block, the same text in each worker and in the join loop: the test
  of \<open>abort\<close>, the acquisition of \<open>ex_mutex\<close>, the test of \<open>ex_ptr\<close>, its assignment,
  \<open>abort.store(true)\<close>, and the release of the lock at the end of the block.
  The attribute \<open>[[assume(!abort.load(...))]]\<close> in front of each test generates no code
  and is given no meaning here: the explicit test that follows it is what is modelled.
\<close>

datatype 'e handler = H_check 'e | H_lock 'e | H_test 'e | H_store 'e | H_abort | H_unlock

text \<open>
  Where a unit of work stands. Dynamic lambda: the loop condition and the call in the
  loop body (with the captured chunk, \<open>it\<close> and \<open>idx\<close>), the increment of \<open>completed\<close>, the
  call of the sink. Compile-time lambda: its entry (with the chunk constants, the step
  and the ordinal \<open>Is\<close>) and \<open>for_each_index\<close> (with its template argument, the thread
  id and the rest of the pack).
\<close>

datatype 'e unit_state =
    Loop chunk nat nat
  | Invoke chunk nat nat
  | Count
  | Report nat
  | Start chunk_constants size_t nat
  | For_each_index size_t nat "size_t list"
  | Handler "'e handler"
  | Done

text \<open>The calling thread: the join loop, a catch block inside it, and the final test.\<close>

datatype 'e caller =
    Join nat
  | Join_handler nat "'e handler"
  | Final_lock
  | Final_test
  | Returned
  | Raised 'e

record 'e state =
  futures :: "'e unit_state list"
  abort :: bool
  completed :: nat
  ex_ptr :: "'e option"
  ex_mutex :: "tid option"
  caller :: "'e caller"
  trace :: "'e event list"

text \<open>
  One atomic step of the catch block run by thread \<open>t\<close>; \<open>None\<close> when the block is left.
  A thread that finds the mutex taken stays where it is.
\<close>

fun handler_step :: "tid \<Rightarrow> 'e handler \<Rightarrow> 'e state \<Rightarrow> 'e handler option \<times> 'e state" where
  "handler_step t (H_check e) s = (if abort s then (None, s) else (Some (H_lock e), s))"
| "handler_step t (H_lock e) s =
     (if ex_mutex s = None then (Some (H_test e), s\<lparr>ex_mutex := Some t\<rparr>)
      else (Some (H_lock e), s))"
| "handler_step t (H_test e) s =
     (if ex_ptr s = None then (Some (H_store e), s) else (Some H_unlock, s))"
| "handler_step t (H_store e) s =
     (Some H_abort, s\<lparr>ex_ptr := Some e, trace := trace s @ [Store t e]\<rparr>)"
| "handler_step t H_abort s = (Some H_unlock, s\<lparr>abort := True\<rparr>)"
| "handler_step t H_unlock s = (None, s\<lparr>ex_mutex := None\<rparr>)"

text \<open>One atomic step of the unit of work behind future \<open>j\<close>.\<close>

fun unit_step :: "'e env \<Rightarrow> nat \<Rightarrow> 'e unit_state \<Rightarrow> 'e state \<Rightarrow> 'e unit_state \<times> 'e state" where
  "unit_step env j (Loop c it idx) s =
     (if it \<noteq> local_chunk_end c then
        (if abort s then (Count, s\<lparr>trace := trace s @ [Break j it]\<rparr>)
         else (Invoke c it idx, s))
      else (Count, s))"
| "unit_step env j (Invoke c it idx) s =
     (case invoke (callable env) it idx (thread_id c) of
        (args, r, idx') \<Rightarrow>
          ((case r of None \<Rightarrow> Loop c (Suc it) idx' | Some e \<Rightarrow> Handler (H_check e)),
           s\<lparr>trace := trace s @ [Call j it args r]\<rparr>))"
| "unit_step env j Count s =
     (Report (Suc (completed s)),
      s\<lparr>completed := Suc (completed s), trace := trace s @ [Incr j (Suc (completed s))]\<rparr>)"
| "unit_step env j (Report n) s =
     ((case progress env n of None \<Rightarrow> Done | Some e \<Rightarrow> Handler (H_check e)),
      s\<lparr>trace := trace s @ [Sink j n]\<rparr>)"
| "unit_step env j (Start c Ns Is) s =
     (if abort s then (Done, s)
      else (For_each_index (chunk_start c) Is (chunk_type c Ns), s))"
| "unit_step env j (For_each_index off tid []) s = (Done, s)"
| "unit_step env j (For_each_index off tid (I # rest)) s =
     (case invoke_index (index_callable env) (I + off) tid of
        (args, r) \<Rightarrow>
          ((case r of None \<Rightarrow> For_each_index off tid rest | Some e \<Rightarrow> Handler (H_check e)),
           s\<lparr>trace := trace s @ [Call j (unat (I + off)) args r]\<rparr>))"
| "unit_step env j (Handler h) s =
     (case handler_step (Worker j) h s of
        (None, s') \<Rightarrow> (Done, s')
      | (Some h', s') \<Rightarrow> (Handler h', s'))"
| "unit_step env j Done s = (Done, s)"

text \<open>
  One atomic step of the calling thread. \<open>get()\<close> blocks until the unit has finished.
  The final \<open>lock_guard\<close> is released when the function is left, by return or by the
  rethrow.
\<close>

fun caller_step :: "'e env \<Rightarrow> 'e caller \<Rightarrow> 'e state \<Rightarrow> 'e caller \<times> 'e state" where
  "caller_step env (Join k) s =
     (if k < length (futures s) then
        (if futures s ! k = Done then
           ((case future_get env k of None \<Rightarrow> Join (Suc k) | Some e \<Rightarrow> Join_handler k (H_check e)),
            s\<lparr>trace := trace s @ [Get k]\<rparr>)
         else (Join k, s))
      else (Final_lock, s))"
| "caller_step env (Join_handler k h) s =
     (case handler_step Main h s of
        (None, s') \<Rightarrow> (Join (Suc k), s')
      | (Some h', s') \<Rightarrow> (Join_handler k h', s'))"
| "caller_step env Final_lock s =
     (if ex_mutex s = None then (Final_test, s\<lparr>ex_mutex := Some Main\<rparr>) else (Final_lock, s))"
| "caller_step env Final_test s =
     (case ex_ptr s of
        None \<Rightarrow> (Returned, s\<lparr>ex_mutex := None\<rparr>)
      | Some e \<Rightarrow> (Raised e, s\<lparr>ex_mutex := None\<rparr>))"
| "caller_step env Returned s = (Returned, s)"
| "caller_step env (Raised e) s = (Raised e, s)"

text \<open>
  The threads of one call run interleaved: a schedule names the thread that takes the
  next atomic step. Each thread is deterministic, so a schedule fixes the execution.
\<close>

fun step :: "'e env \<Rightarrow> tid \<Rightarrow> 'e state \<Rightarrow> 'e state" where
  "step env Main s = (case caller_step env (caller s) s of (c', s') \<Rightarrow> s'\<lparr>caller := c'\<rparr>)"
| "step env (Worker j) s =
     (if j < length (futures s) then
        (case unit_step env j (futures s ! j) s of
           (u', s') \<Rightarrow> s'\<lparr>futures := (futures s')[j := u']\<rparr>)
      else s)"

definition run :: "'e env \<Rightarrow> tid list \<Rightarrow> 'e state \<Rightarrow> 'e state" where
  "run env sched s = fold (step env) sched s"

text \<open>
  The state when the launch loop has handed every unit to \<open>std::async\<close>: fresh flag,
  counter, cell and mutex, and the caller in front of the join loop.
\<close>

definition launched :: "'e unit_state list \<Rightarrow> 'e state" where
  "launched us =
     \<lparr>futures = us, abort = False, completed = 0, ex_ptr = None, ex_mutex = None,
      caller = Join 0, trace = []\<rparr>"

text \<open>The lambda of chunk \<open>c\<close> at its entry: \<open>idx = idx_offset\<close>, \<open>it = local_chunk_begin\<close>.\<close>

definition unit_of :: "chunk \<Rightarrow> 'e unit_state" where
  "unit_of c = Loop c (local_chunk_begin c) (idx_offset c)"

text \<open>
  The dynamic \<open>async_for_each(begin, end, f, threads, progress)\<close> under a schedule. An
  empty range returns before any shared object exists.
\<close>

definition async_for_each ::
  "'e env \<Rightarrow> bool \<Rightarrow> nat \<Rightarrow> nat \<Rightarrow> nat \<Rightarrow> tid list \<Rightarrow> fault + 'e state" where
  "async_for_each env ra b e nthreads sched =
     (if e - b = 0 then Inr ((launched [])\<lparr>caller := Returned\<rparr>)
      else
        (case partition_chunks ra b e nthreads of
           Inl x \<Rightarrow> Inl x
         | Inr cs \<Rightarrow> Inr (run env sched (launched (map unit_of cs)))))"

text \<open>
  The compile-time \<open>async_for_each<T, N0, Nn, Ns, threads>(f)\<close> under a schedule: one
  instantiation of \<open>chunk_of_sequence\<close> per ordinal of \<open>std::make_index_sequence<threads>\<close>,
  itself a pack. The program exists when every one of these instantiations does.
\<close>

definition async_for_each_index ::
  "'e env \<Rightarrow> size_t \<Rightarrow> size_t \<Rightarrow> size_t \<Rightarrow> nat \<Rightarrow> tid list \<Rightarrow> fault + 'e state" where
  "async_for_each_index env N0 Nn Ns nthreads sched =
     (if pack_limit < int nthreads then Inl Ill_formed
      else
        (case those (map (\<lambda>Is. chunk_of_sequence N0 Nn Ns (of_nat Is) (of_nat nthreads))
                         [0 ..< nthreads]) of
           None \<Rightarrow> Inl Ill_formed
         | Some cs \<Rightarrow>
             Inr (run env sched
                    (launched (map (\<lambda>(Is, c). Start c Ns Is) (zip [0 ..< nthreads] cs))))))"


section \<open>Reading a trace\<close>

fun call_of :: "'e event \<Rightarrow> (nat \<times> nat \<times> nat list) list" where
  "call_of (Call j p args r) = [(j, p, args)]"
| "call_of _ = []"

text \<open>The invocations of the callable, in order: worker, subject, extra arguments.\<close>

definition calls :: "'e event list \<Rightarrow> (nat \<times> nat \<times> nat list) list" where
  "calls tr = concat (map call_of tr)"

fun sink_of :: "'e event \<Rightarrow> (nat \<times> nat) list" where
  "sink_of (Sink j n) = [(j, n)]"
| "sink_of _ = []"

text \<open>The invocations of the progress sink, in order: worker, argument.\<close>

definition sinks :: "'e event list \<Rightarrow> (nat \<times> nat) list" where
  "sinks tr = concat (map sink_of tr)"

fun store_of :: "'e event \<Rightarrow> 'e list" where
  "store_of (Store t e) = [e]"
| "store_of _ = []"

text \<open>The values written to the failure cell, in order.\<close>

definition stores :: "'e event list \<Rightarrow> 'e list" where
  "stores tr = concat (map store_of tr)"

fun get_of :: "'e event \<Rightarrow> nat list" where
  "get_of (Get k) = [k]"
| "get_of _ = []"

text \<open>The futures on which \<open>get()\<close> was called, in order.\<close>

definition gets :: "'e event list \<Rightarrow> nat list" where
  "gets tr = concat (map get_of tr)"

text \<open>Two environments for concrete runs: nothing ever throws; the callable throws on
  the element at position 0.\<close>

definition quiet_env :: "nat env" where
  "quiet_env =
     \<lparr>callable = Elem_Idx (\<lambda>p idx. None), index_callable = Index (\<lambda>v. None),
      progress = (\<lambda>n. None), future_get = (\<lambda>k. None)\<rparr>"

definition raising_env :: "nat env" where
  "raising_env =
     \<lparr>callable = Elem_Idx (\<lambda>p idx. if p = 0 then Some 7 else None),
      index_callable = Index (\<lambda>v. None),
      progress = (\<lambda>n. None), future_get = (\<lambda>k. None)\<rparr>"

text \<open>
  The chunk of ordinal \<open>k\<close> in closed form: boundaries at multiples of the chunk size,
  the last one ending at \<open>end\<close>; the index offset is the ordinal times the chunk's own
  length, as the loop computes it.
\<close>

definition nth_chunk :: "nat \<Rightarrow> nat \<Rightarrow> nat \<Rightarrow> nat \<Rightarrow> chunk" where
  "nth_chunk b e n k =
     (let csize = (e - b) div n;
          cb = b + k * csize;
          ce = (if k = n - 1 then e else cb + csize)
      in \<lparr>local_chunk_begin = cb, local_chunk_end = ce, idx_offset = k * (ce - cb),
          thread_id = k\<rparr>)"


section \<open>The partition of the dynamic path\<close>

lemma advance_eq: "it \<le> e \<Longrightarrow> advance k it e = min (it + k) e"
  by (induction k arbitrary: it) auto

lemma launch_loop_closed:
  assumes n: "0 < n" and le: "n \<le> e - b"
  shows "i \<le> n \<Longrightarrow>
    launch_loop ra e (e - b) n ((e - b) div n) i (b + i * ((e - b) div n)) =
      map (nth_chunk b e n) [i ..< n]"
proof (induction "n - i" arbitrary: i)
  case 0
  then show ?case by (simp add: launch_loop.simps)
next
  case (Suc d)
  then have i: "i < n" by simp
  define c where "c = (e - b) div n"
  have ncs: "n * c \<le> e - b" unfolding c_def by simp
  have "Suc i * c \<le> n * c" using i by (intro mult_le_mono1) simp
  then have bound: "b + i * c + c \<le> e" using ncs le n by simp
  have adv1: "advance c (b + i * c) e = b + i * c + c"
    using bound by (simp add: advance_eq)
  have adv2: "advance (e - b) (b + i * c) e = e"
    using bound le by (simp add: advance_eq)
  have "d = n - Suc i" "Suc i \<le> n" using Suc.hyps(2) i by simp_all
  then have IH: "launch_loop ra e (e - b) n c (Suc i) (b + Suc i * c) =
      map (nth_chunk b e n) [Suc i ..< n]"
    unfolding c_def by (rule Suc.hyps(1))
  have last: "i = n - 1 \<Longrightarrow> launch_loop ra e (e - b) n c (Suc i) x = []" for x
    using i by (simp add: launch_loop.simps)
  have upt: "[i ..< n] = i # [Suc i ..< n]" using i by (simp add: upt_conv_Cons)
  have unf: "launch_loop ra e (e - b) n c i (b + i * c) =
     (let chunk_end =
               (if ra then (if i = n - 1 then e else b + i * c + c)
                else advance (if i = n - 1 then e - b else c) (b + i * c) e)
      in \<lparr>local_chunk_begin = b + i * c, local_chunk_end = chunk_end,
              idx_offset = i * (chunk_end - (b + i * c)), thread_id = i\<rparr>
            # launch_loop ra e (e - b) n c (Suc i) chunk_end)"
    using i by (simp add: Let_def launch_loop.simps[of ra e "e - b" n c i])
  have "launch_loop ra e (e - b) n c i (b + i * c) = map (nth_chunk b e n) [i ..< n]"
  proof (cases "i = n - 1")
    case True
    then have nil: "[Suc i ..< n] = []" using i by simp
    have T: "(i = n - Suc 0) \<longleftrightarrow> True" using True by simp
    have "launch_loop ra e (e - b) n c i (b + i * c) =
        [\<lparr>local_chunk_begin = b + i * c, local_chunk_end = e,
          idx_offset = i * (e - (b + i * c)), thread_id = i\<rparr>]"
      by (simp add: unf T adv2 last[OF True] Let_def)
    then show ?thesis
      by (simp add: upt nil T nth_chunk_def Let_def c_def [symmetric])
  next
    case False
    have F: "(i = n - Suc 0) \<longleftrightarrow> False" using False by simp
    have IH': "launch_loop ra e (e - b) n c (Suc i) (b + i * c + c) =
        map (nth_chunk b e n) [Suc i ..< n]"
    proof -
      have "b + i * c + c = b + Suc i * c" by simp
      then show ?thesis using IH by (simp only:)
    qed
    have "launch_loop ra e (e - b) n c i (b + i * c) =
        \<lparr>local_chunk_begin = b + i * c, local_chunk_end = b + i * c + c,
          idx_offset = i * c, thread_id = i\<rparr>
        # launch_loop ra e (e - b) n c (Suc i) (b + i * c + c)"
      by (simp add: unf F adv1 Let_def)
    then show ?thesis
      by (simp add: IH' upt F nth_chunk_def Let_def c_def [symmetric])
  qed
  then show ?case unfolding c_def .
qed

lemma partition_chunks_closed:
  assumes "b < e" "1 \<le> t"
  shows "partition_chunks ra b e t =
    Inr (map (nth_chunk b e (min t (e - b))) [0 ..< min t (e - b)])"
  using assms launch_loop_closed[of "min t (e - b)" e b 0 ra]
  by (simp add: partition_chunks_def Let_def)

lemma concat_upt_chain:
  "i \<le> n \<Longrightarrow> (\<And>k. i \<le> k \<Longrightarrow> k < n \<Longrightarrow> f k \<le> f (Suc k)) \<Longrightarrow>
     concat (map (\<lambda>k. [f k ..< f (Suc k)]) [i ..< n]) = [f i ..< f n] \<and> f i \<le> f n"
proof (induction n)
  case 0
  then show ?case by simp
next
  case (Suc n)
  show ?case
  proof (cases "i = Suc n")
    case True
    then show ?thesis by simp
  next
    case False
    then have "i \<le> n" using Suc.prems by simp
    then have IH: "concat (map (\<lambda>k. [f k ..< f (Suc k)]) [i ..< n]) = [f i ..< f n]"
        "f i \<le> f n"
      using Suc by auto
    have st: "f n \<le> f (Suc n)" using Suc.prems \<open>i \<le> n\<close> by simp
    have "[f i ..< f n] @ [f n ..< f (Suc n)] = [f i ..< f (Suc n)]"
      using IH(2) st by (metis le_Suc_ex upt_add_eq_append)
    then show ?thesis using IH st \<open>i \<le> n\<close> by simp
  qed
qed


section \<open>Claims settled by the sequential parts\<close>

text \<open>
  C10. With a non-empty range, the dynamic \<open>async_for_each\<close> called with
  \<open>threads = 0\<close> divides by zero in \<open>size / threads\<close>: the clamp \<open>min(threads, size)\<close>
  leaves 0 at 0, and nothing raises it. With any thread count of at least 1 the
  division is defined and the call proceeds to its workers.
\<close>

theorem zero_threads_divides_by_zero:
  "b < e \<Longrightarrow>
     (nthreads = 0 \<longrightarrow> async_for_each env ra b e nthreads sched = Inl Division_by_zero) \<and>
     (1 \<le> nthreads \<longrightarrow> (\<exists>s. async_for_each env ra b e nthreads sched = Inr s))"
  by (auto simp: async_for_each_def partition_chunks_def Let_def min_def)

theorem zero_threads_divides_by_zero_witness:
  "(0::nat) < 1 \<and> async_for_each quiet_env True 0 1 0 [Main] = Inl Division_by_zero"
  using zero_threads_divides_by_zero[of 0 1 0 quiet_env True "[Main]"] by simp

text \<open>
  C6. Whenever \<open>offset > total\<close> the guard \<open>offset + chunk_size > total\<close> selects
  \<open>total - offset\<close>, which wraps. With step 1 the wrapped count makes the member \<open>type\<close>
  longer than any pack: \<open>chunk_of_sequence<size_t, 0, 5, 1, 3, 4>\<close> (five indices, four
  workers, the last worker: \<open>chunk_size = 2\<close>, \<open>offset = 6\<close>) is ill-formed, and with it
  \<open>async_for_each<size_t, 0, 5, 1, 4>\<close>. With a step at which the wrapped length is
  small the instantiation exists and carries the wrapped count:
  \<open>chunk_of_sequence<size_t, 0, 1, 2^63, 2, 3>\<close> (one index, three workers, the last
  worker) has \<open>total = 1\<close>, \<open>offset = 2\<close> and \<open>count = 2^64 - 1\<close>, its \<open>type\<close> is the
  one-element pack \<open>{0}\<close>, and a complete run of \<open>async_for_each<size_t, 0, 1, 2^63, 3>\<close>
  invokes the callable on index 0 twice, from workers 0 and 2.
\<close>

theorem chunk_of_sequence_count_wraps:
  "chunk_of_sequence 0 1 (2 ^ 63) 2 3 =
     Some \<lparr>total_n = 1, chunk_size = 1, offset = 2, count_n = - 1, chunk_start = 0,
           chunk_end = 2 ^ 63\<rparr> \<and>
   unat (- 1 :: size_t) = 18446744073709551615 \<and>
   make_stepped_sequence 0 (2 ^ 63) (2 ^ 63) = [0] \<and>
   map_sum id (\<lambda>s. (caller s, calls (trace s)))
     (async_for_each_index quiet_env 0 1 (2 ^ 63) 3
        (replicate 3 (Worker 0) @ replicate 2 (Worker 1) @ replicate 3 (Worker 2)
         @ replicate 6 Main)) =
     Inr (Returned, [(0, 0, []), (2, 0, [])]) \<and>
   chunk_of_sequence 0 5 1 3 4 = None \<and>
   async_for_each_index quiet_env 0 5 1 4 [] = Inl Ill_formed"
proof (intro conjI)
  show "unat (- 1 :: size_t) = 18446744073709551615"
    by (simp add: unsigned_minus_1_eq_mask mask_eq_exp_minus_1)
qed code_simp+

text \<open>
  C2. For a range of three elements and two workers, with either kind of iterator, the
  second chunk \<open>[1, 3)\<close> records the offset \<open>1 * 2 = 2\<close> (its ordinal times its own
  length), not \<open>1 * (3 div 2) = 1\<close>; a complete run passes the global indices 0, 2, 3
  for the elements at positions 0, 1, 2.
\<close>

theorem idx_offset_uses_chunk_len:
  "partition_chunks True 0 3 2 =
     Inr [\<lparr>local_chunk_begin = 0, local_chunk_end = 1, idx_offset = 0, thread_id = 0\<rparr>,
          \<lparr>local_chunk_begin = 1, local_chunk_end = 3, idx_offset = 2, thread_id = 1\<rparr>] \<and>
   partition_chunks False 0 3 2 = partition_chunks True 0 3 2 \<and>
   map_sum id (\<lambda>s. (caller s, calls (trace s)))
     (async_for_each quiet_env True 0 3 2
        (replicate 5 (Worker 0) @ replicate 7 (Worker 1) @ replicate 5 Main)) =
     Inr (Returned, [(0, 0, [0]), (1, 1, [2]), (1, 2, [3])])"
  by code_simp

text \<open>
  C3. For \<open>async_for_each<size_t, 0, 100, 1, 3>\<close> the three chunks have 34, 34 and 32
  indices, starting at 0, 34 and 68. Each worker passes \<open>I + chunk_start\<close> for every
  \<open>I\<close> of its sequence, which already starts at \<open>chunk_start\<close>: a complete run invokes
  the callable 100 times, with the values 0..33, 68..101 and 136..167.
\<close>

theorem compile_time_indices_shifted:
  "map (\<lambda>Is. map_option (\<lambda>c. (count_n c, chunk_start c)) (chunk_of_sequence 0 100 1 Is 3))
       [0, 1, 2] =
     [Some (34, 0), Some (34, 34), Some (32, 68)] \<and>
   map_sum id (\<lambda>s. (caller s, map (\<lambda>(j, v, args). v) (calls (trace s))))
     (async_for_each_index quiet_env 0 100 1 3
        (replicate 36 (Worker 0) @ replicate 36 (Worker 1) @ replicate 34 (Worker 2)
         @ replicate 6 Main)) =
     Inr (Returned, [0 ..< 34] @ [68 ..< 102] @ [136 ..< 168])"
  by code_simp

lemma lifetime_cached:
  "static_threads p \<noteq> 0 \<Longrightarrow>
     lifetime m envs p = Some (replicate (length envs) (static_threads p), p)"
  by (induction envs) (simp_all add: runtime_threads_def)

lemma atoi_no_digit: "\<forall>c \<in> set str. \<not> isdigit c \<Longrightarrow> atoi str = Some 0"
proof -
  assume nd: "\<forall>c \<in> set str. \<not> isdigit c"
  have d: "atoi_digits 0 xs = 0" if "\<forall>c \<in> set xs. \<not> isdigit c" for xs
    using that by (cases xs) simp_all
  have sub: "set (dropWhile isspace str) \<subseteq> set str" by (rule set_dropWhileD[THEN subsetI])
  have "atoi_read str = 0"
  proof (cases "dropWhile isspace str")
    case Nil
    then show ?thesis by (simp only: atoi_read_def list.case)
  next
    case (Cons c cs)
    then have "\<forall>x \<in> set (c # cs). \<not> isdigit x" using nd sub by auto
    then have "atoi_digits 0 cs = 0" "atoi_digits 0 (c # cs) = 0"
      using d[of cs] d[of "c # cs"] by simp_all
    then show ?thesis by (simp only: atoi_read_def Cons list.case) simp
  qed
  then show ?thesis by (simp add: atoi_def)
qed

lemma atoi_range: "atoi str = Some n \<Longrightarrow> - (2 ^ 31) \<le> n \<and> n < 2 ^ 31"
  by (auto simp: atoi_def Let_def split: if_splits)

text \<open>
  C8, the claim as stated fails: with the header's defaults and \<open>ASYNC_NUM_THREADS=abc\<close>
  in the environment, the first call returns 1 (the lower bound), while the compiled-in
  default is 4.
\<close>

theorem invalid_override_gives_minimum:
  "map_option fst (runtime_threads default_macros (Some ''abc'') process_start) = Some 1 \<and>
   threads default_macros = 4"
  by code_simp

text \<open>
  C8, amended. With positive configuration constants and \<open>min \<le> max\<close>: over a process
  lifetime of any number of calls, whatever the environment holds at each of them,
  \<open>getenv\<close> is called exactly once (by the first call) and every call returns the value
  resolved then. That value is the default when the variable is absent. When the
  variable is present and the number its text spells fits an \<open>int\<close>, the value is that
  number clamped to the bounds, which is the lower bound, not the default, for a text
  that is non-numeric or not positive. When the number does not fit an \<open>int\<close> the first
  call has the undefined behaviour of \<open>std::atoi\<close> and nothing is resolved.
\<close>

theorem runtime_threads_resolution:
  assumes "1 \<le> ASYNC_MIN_THREADS m" "ASYNC_MIN_THREADS m \<le> ASYNC_MAX_THREADS m"
    and "ASYNC_MAX_THREADS m < 2 ^ 31"
    and "1 \<le> ASYNC_NUM_THREADS m" "ASYNC_NUM_THREADS m < 2 ^ 64"
  shows "(env = None \<longrightarrow>
            (\<exists>v. lifetime m (env # envs) process_start =
                    Some (replicate (Suc (length envs)) v,
                          \<lparr>static_threads = v, getenv_calls = 1\<rparr>) \<and>
                  int v = ASYNC_NUM_THREADS m)) \<and>
         (\<forall>str. env = Some str \<longrightarrow>
            (atoi str = None \<longrightarrow>
               (atoi_read str < - (2 ^ 31) \<or> 2 ^ 31 \<le> atoi_read str) \<and>
               lifetime m (env # envs) process_start = None) \<and>
            (\<forall>n. atoi str = Some n \<longrightarrow>
               n = atoi_read str \<and>
               (\<exists>v. lifetime m (env # envs) process_start =
                       Some (replicate (Suc (length envs)) v,
                             \<lparr>static_threads = v, getenv_calls = 1\<rparr>) \<and>
                     int v = min (ASYNC_MAX_THREADS m) (max (ASYNC_MIN_THREADS m) n) \<and>
                     ASYNC_MIN_THREADS m \<le> int v \<and> int v \<le> ASYNC_MAX_THREADS m \<and>
                     (n \<le> 0 \<longrightarrow> int v = ASYNC_MIN_THREADS m))) \<and>
            ((\<forall>c \<in> set str. \<not> isdigit c) \<longrightarrow> atoi str = Some 0))"
proof -
  have resolved: "lifetime m (env # envs) process_start =
      Some (replicate (Suc (length envs)) (nat x), \<lparr>static_threads = nat x, getenv_calls = 1\<rparr>)"
    if first: "runtime_threads m env process_start =
        Some (size_t_of_int x, \<lparr>static_threads = size_t_of_int x, getenv_calls = 1\<rparr>)"
      and x: "1 \<le> x" "x < 2 ^ 64" for x
  proof -
    have conv: "size_t_of_int x = nat x" using x by (simp add: size_t_of_int_def)
    have "lifetime m envs \<lparr>static_threads = nat x, getenv_calls = 1\<rparr> =
        Some (replicate (length envs) (nat x), \<lparr>static_threads = nat x, getenv_calls = 1\<rparr>)"
      using lifetime_cached[of "\<lparr>static_threads = nat x, getenv_calls = 1\<rparr>" m envs] x by simp
    then show ?thesis using first conv by simp
  qed
  have A: "\<exists>v. lifetime m (env # envs) process_start =
                    Some (replicate (Suc (length envs)) v,
                          \<lparr>static_threads = v, getenv_calls = 1\<rparr>) \<and>
                  int v = ASYNC_NUM_THREADS m" if "env = None"
  proof -
    have "runtime_threads m env process_start =
        Some (size_t_of_int (ASYNC_NUM_THREADS m),
              \<lparr>static_threads = size_t_of_int (ASYNC_NUM_THREADS m), getenv_calls = 1\<rparr>)"
      using that by (simp add: runtime_threads_def process_start_def threads_def Let_def)
    then have "lifetime m (env # envs) process_start =
        Some (replicate (Suc (length envs)) (nat (ASYNC_NUM_THREADS m)),
              \<lparr>static_threads = nat (ASYNC_NUM_THREADS m), getenv_calls = 1\<rparr>)"
      using assms(4,5) by (rule resolved)
    moreover have "int (nat (ASYNC_NUM_THREADS m)) = ASYNC_NUM_THREADS m"
      using assms(4) by simp
    ultimately show ?thesis by blast
  qed
  have B1: "(atoi_read str < - (2 ^ 31) \<or> 2 ^ 31 \<le> atoi_read str) \<and>
      lifetime m (env # envs) process_start = None"
    if "env = Some str" "atoi str = None" for str
  proof -
    have "runtime_threads m env process_start = None"
      using that by (simp add: runtime_threads_def process_start_def Let_def)
    moreover have "atoi_read str < - (2 ^ 31) \<or> 2 ^ 31 \<le> atoi_read str"
      using that(2) by (auto simp: atoi_def Let_def split: if_splits)
    ultimately show ?thesis by simp
  qed
  have B2: "n = atoi_read str \<and>
      (\<exists>v. lifetime m (env # envs) process_start =
                       Some (replicate (Suc (length envs)) v,
                             \<lparr>static_threads = v, getenv_calls = 1\<rparr>) \<and>
                     int v = min (ASYNC_MAX_THREADS m) (max (ASYNC_MIN_THREADS m) n) \<and>
                     ASYNC_MIN_THREADS m \<le> int v \<and> int v \<le> ASYNC_MAX_THREADS m \<and>
                     (n \<le> 0 \<longrightarrow> int v = ASYNC_MIN_THREADS m))"
    if e: "env = Some str" and a: "atoi str = Some n" for str n
  proof -
    define x where "x = min (ASYNC_MAX_THREADS m) (max (ASYNC_MIN_THREADS m) n)"
    have x: "1 \<le> x" "x < 2 ^ 64" using assms(1,2,3) by (auto simp: x_def)
    have "runtime_threads m env process_start =
        Some (size_t_of_int x, \<lparr>static_threads = size_t_of_int x, getenv_calls = 1\<rparr>)"
      using e a by (simp add: runtime_threads_def process_start_def Let_def x_def)
    then have life: "lifetime m (env # envs) process_start =
        Some (replicate (Suc (length envs)) (nat x), \<lparr>static_threads = nat x, getenv_calls = 1\<rparr>)"
      using x by (rule resolved)
    have ix: "int (nat x) = x" using x by simp
    have "ASYNC_MIN_THREADS m \<le> x" "x \<le> ASYNC_MAX_THREADS m"
      "n \<le> 0 \<longrightarrow> x = ASYNC_MIN_THREADS m"
      using assms(1,2) by (auto simp: x_def)
    then have "int (nat x) = min (ASYNC_MAX_THREADS m) (max (ASYNC_MIN_THREADS m) n) \<and>
        ASYNC_MIN_THREADS m \<le> int (nat x) \<and> int (nat x) \<le> ASYNC_MAX_THREADS m \<and>
        (n \<le> 0 \<longrightarrow> int (nat x) = ASYNC_MIN_THREADS m)"
      unfolding ix by (simp add: x_def)
    moreover have "n = atoi_read str" using a by (auto simp: atoi_def Let_def split: if_splits)
    ultimately show ?thesis using life by blast
  qed
  show ?thesis
    apply (intro conjI allI impI)
         apply (erule A)
        apply (erule (1) B1[THEN conjunct1])
       apply (erule (1) B1[THEN conjunct2])
      apply (erule (1) B2[THEN conjunct1])
     apply (erule (1) B2[THEN conjunct2])
    apply (erule atoi_no_digit)
    done
qed

theorem runtime_threads_resolution_witness:
  "1 \<le> ASYNC_MIN_THREADS default_macros \<and>
   ASYNC_MIN_THREADS default_macros \<le> ASYNC_MAX_THREADS default_macros \<and>
   ASYNC_MAX_THREADS default_macros < 2 ^ 31 \<and>
   1 \<le> ASYNC_NUM_THREADS default_macros \<and> ASYNC_NUM_THREADS default_macros < 2 ^ 64 \<and>
   atoi ''abc'' = Some 0 \<and> atoi ''4294967300'' = None \<and>
   lifetime default_macros [Some ''abc'', None, Some ''8''] process_start =
     Some ([1, 1, 1], \<lparr>static_threads = 1, getenv_calls = 1\<rparr>) \<and>
   lifetime default_macros [Some ''4294967300'', None] process_start = None"
proof -
  have a: "atoi ''abc'' = Some 0" "atoi ''4294967300'' = None" by code_simp+
  have m: "1 \<le> ASYNC_MIN_THREADS default_macros"
    "ASYNC_MIN_THREADS default_macros \<le> ASYNC_MAX_THREADS default_macros"
    "ASYNC_MAX_THREADS default_macros < 2 ^ 31"
    "1 \<le> ASYNC_NUM_THREADS default_macros" "ASYNC_NUM_THREADS default_macros < 2 ^ 64"
    by (simp_all add: default_macros_def)
  obtain v where v: "lifetime default_macros [Some ''abc'', None, Some ''8''] process_start =
          Some (replicate (Suc (length [None, Some ''8''])) v,
                \<lparr>static_threads = v, getenv_calls = 1\<rparr>)"
      "int v = min (ASYNC_MAX_THREADS default_macros) (max (ASYNC_MIN_THREADS default_macros) 0)"
    using runtime_threads_resolution[OF m, of "Some ''abc''" "[None, Some ''8'']"] a(1)
    by blast
  have "v = 1" using v(2) by (simp add: default_macros_def)
  then have l1: "lifetime default_macros [Some ''abc'', None, Some ''8''] process_start =
      Some ([1, 1, 1], \<lparr>static_threads = 1, getenv_calls = 1\<rparr>)"
    using v(1) by simp
  have l2: "lifetime default_macros [Some ''4294967300'', None] process_start = None"
    using runtime_threads_resolution[OF m, of "Some ''4294967300''" "[None]"] a(2) by blast
  show ?thesis using m a l1 l2 by (intro conjI)
qed

section \<open>The protocol: frames and the mutex\<close>

text \<open>
  What a thread is doing with respect to the mutex: outside, waiting to acquire it, or
  inside the guarded section at the test of the cell, its assignment, the store to
  \<open>abort\<close> or the release.
\<close>

datatype lockpc = Out | Acquiring | Testing | Storing | Aborting | Releasing

fun lk_handler :: "'e handler \<Rightarrow> lockpc" where
  "lk_handler (H_check e) = Out"
| "lk_handler (H_lock e) = Acquiring"
| "lk_handler (H_test e) = Testing"
| "lk_handler (H_store e) = Storing"
| "lk_handler H_abort = Aborting"
| "lk_handler H_unlock = Releasing"

fun lk_caller :: "'e caller \<Rightarrow> lockpc" where
  "lk_caller (Join_handler k h) = lk_handler h"
| "lk_caller Final_lock = Acquiring"
| "lk_caller Final_test = Releasing"
| "lk_caller _ = Out"

fun lk_unit :: "'e unit_state \<Rightarrow> lockpc" where
  "lk_unit (Handler h) = lk_handler h"
| "lk_unit _ = Out"

definition lk :: "'e state \<Rightarrow> tid \<Rightarrow> lockpc" where
  "lk s t =
     (case t of
        Main \<Rightarrow> lk_caller (caller s)
      | Worker j \<Rightarrow> if j < length (futures s) then lk_unit (futures s ! j) else Out)"

definition lock_rel ::
  "tid \<Rightarrow> lockpc \<Rightarrow> tid option \<Rightarrow> 'e option \<Rightarrow> lockpc \<Rightarrow> tid option \<Rightarrow> 'e option \<Rightarrow> bool" where
  "lock_rel t l m x l' m' x' =
     (case l of
        Out \<Rightarrow> (l' = Out \<or> l' = Acquiring) \<and> m' = m \<and> x' = x
      | Acquiring \<Rightarrow>
          x' = x \<and>
          (if m = None then m' = Some t \<and> (l' = Testing \<or> l' = Releasing)
           else m' = m \<and> l' = Acquiring)
      | Testing \<Rightarrow> m' = m \<and> x' = x \<and> (if x = None then l' = Storing else l' = Releasing)
      | Storing \<Rightarrow> m' = m \<and> x' \<noteq> None \<and> l' = Aborting
      | Aborting \<Rightarrow> m' = m \<and> x' = x \<and> l' = Releasing
      | Releasing \<Rightarrow> m' = None \<and> x' = x \<and> l' = Out)"

lemma handler_step_frame:
  "handler_step t h s = (ho, s') \<Longrightarrow> futures s' = futures s \<and> caller s' = caller s"
  by (cases h) (auto split: if_splits)

lemma unit_step_frame:
  "unit_step env j u s = (u', s') \<Longrightarrow> futures s' = futures s \<and> caller s' = caller s"
proof (cases u)
  case (For_each_index off tid seq)
  assume "unit_step env j u s = (u', s')"
  then show ?thesis using For_each_index by (cases seq) (auto split: prod.splits)
next
  case (Handler h)
  assume a: "unit_step env j u s = (u', s')"
  obtain ho s1 where hs: "handler_step (Worker j) h s = (ho, s1)"
    by (cases "handler_step (Worker j) h s")
  then have "s' = s1" using a Handler by (cases ho) auto
  then show ?thesis using handler_step_frame[OF hs] by simp
qed (auto split: prod.splits if_splits)

lemma caller_step_frame:
  "caller_step env c s = (c', s') \<Longrightarrow> futures s' = futures s"
proof (cases c)
  case (Join_handler k h)
  assume a: "caller_step env c s = (c', s')"
  obtain ho s1 where hs: "handler_step Main h s = (ho, s1)"
    by (cases "handler_step Main h s")
  then have "s' = s1" using a Join_handler by (cases ho) auto
  then show ?thesis using handler_step_frame[OF hs] by simp
qed (auto split: prod.splits option.splits if_splits)

lemma step_main:
  "caller_step env (caller s) s = (c', s') \<Longrightarrow> step env Main s = s'\<lparr>caller := c'\<rparr>"
  by simp

lemma step_worker:
  "j < length (futures s) \<Longrightarrow> unit_step env j (futures s ! j) s = (u', s') \<Longrightarrow>
     step env (Worker j) s = s'\<lparr>futures := (futures s)[j := u']\<rparr>"
  using unit_step_frame[of env j "futures s ! j" s u' s'] by simp

lemma step_worker_out: "\<not> j < length (futures s) \<Longrightarrow> step env (Worker j) s = s"
  by simp

declare step.simps [simp del]

lemma step_main_futures [simp]: "futures (step env Main s) = futures s"
proof -
  obtain c' s' where cs: "caller_step env (caller s) s = (c', s')"
    by (cases "caller_step env (caller s) s")
  show ?thesis using caller_step_frame[OF cs] by (simp add: step_main[OF cs])
qed

lemma step_worker_caller [simp]: "caller (step env (Worker j) s) = caller s"
proof (cases "j < length (futures s)")
  case True
  obtain u' s' where us: "unit_step env j (futures s ! j) s = (u', s')"
    by (cases "unit_step env j (futures s ! j) s")
  show ?thesis using unit_step_frame[OF us] by (simp add: step_worker[OF True us])
qed (simp add: step_worker_out)

lemma step_worker_futures:
  "j < length (futures s) \<Longrightarrow>
     futures (step env (Worker j) s) = (futures s)[j := fst (unit_step env j (futures s ! j) s)]"
proof -
  assume j: "j < length (futures s)"
  obtain u' s' where us: "unit_step env j (futures s ! j) s = (u', s')"
    by (cases "unit_step env j (futures s ! j) s")
  show ?thesis by (simp add: step_worker[OF j us] us)
qed

lemma step_length [simp]: "length (futures (step env t s)) = length (futures s)"
proof (cases t)
  case Main
  then show ?thesis by simp
next
  case (Worker j)
  then show ?thesis
    by (cases "j < length (futures s)") (simp_all add: step_worker_futures step_worker_out)
qed

lemma lk_frame: "t' \<noteq> t \<Longrightarrow> lk (step env t s) t' = lk s t'"
proof (cases t)
  case Main
  assume "t' \<noteq> t"
  then obtain j where "t' = Worker j" using Main by (cases t') auto
  then show ?thesis using Main by (simp add: lk_def)
next
  case (Worker j)
  assume ne: "t' \<noteq> t"
  show ?thesis
  proof (cases "j < length (futures s)")
    case True
    then show ?thesis using ne Worker
      by (cases t') (auto simp: lk_def step_worker_futures)
  next
    case False
    then show ?thesis using Worker by (simp add: step_worker_out)
  qed
qed

lemma handler_lock_rel:
  "handler_step t h s = (ho, s') \<Longrightarrow>
     lock_rel t (lk_handler h) (ex_mutex s) (ex_ptr s)
       (case ho of None \<Rightarrow> Out | Some h' \<Rightarrow> lk_handler h') (ex_mutex s') (ex_ptr s')"
  by (cases h) (auto simp: lock_rel_def split: if_splits)

lemma unit_lock_rel:
  "unit_step env j u s = (u', s') \<Longrightarrow>
     lock_rel (Worker j) (lk_unit u) (ex_mutex s) (ex_ptr s) (lk_unit u') (ex_mutex s') (ex_ptr s')"
proof (cases u)
  case (For_each_index off tid seq)
  assume "unit_step env j u s = (u', s')"
  then show ?thesis using For_each_index
    by (cases seq) (auto simp: lock_rel_def split: prod.splits option.splits)
next
  case (Handler h)
  assume a: "unit_step env j u s = (u', s')"
  obtain ho s1 where hs: "handler_step (Worker j) h s = (ho, s1)"
    by (cases "handler_step (Worker j) h s")
  then show ?thesis using a Handler handler_lock_rel[OF hs] by (cases ho) auto
qed (auto simp: lock_rel_def split: prod.splits option.splits if_splits)

lemma caller_lock_rel:
  "caller_step env c s = (c', s') \<Longrightarrow>
     lock_rel Main (lk_caller c) (ex_mutex s) (ex_ptr s) (lk_caller c') (ex_mutex s') (ex_ptr s')"
proof (cases c)
  case (Join_handler k h)
  assume a: "caller_step env c s = (c', s')"
  obtain ho s1 where hs: "handler_step Main h s = (ho, s1)"
    by (cases "handler_step Main h s")
  then show ?thesis using a Join_handler handler_lock_rel[OF hs] by (cases ho) auto
qed (auto simp: lock_rel_def split: prod.splits option.splits if_splits)

lemma lk_step:
  "lock_rel t (lk s t) (ex_mutex s) (ex_ptr s)
     (lk (step env t s) t) (ex_mutex (step env t s)) (ex_ptr (step env t s))"
proof (cases t)
  case Main
  obtain c' s' where cs: "caller_step env (caller s) s = (c', s')"
    by (cases "caller_step env (caller s) s")
  show ?thesis using caller_lock_rel[OF cs] Main by (simp add: step_main[OF cs] lk_def)
next
  case (Worker j)
  show ?thesis
  proof (cases "j < length (futures s)")
    case False
    then show ?thesis using Worker by (simp add: step_worker_out lk_def lock_rel_def)
  next
    case True
    obtain u' s' where us: "unit_step env j (futures s ! j) s = (u', s')"
      by (cases "unit_step env j (futures s ! j) s")
    show ?thesis using unit_lock_rel[OF us] Worker True
      by (simp add: step_worker[OF True us] lk_def)
  qed
qed

fun crit :: "lockpc \<Rightarrow> bool" where
  "crit Out = False"
| "crit Acquiring = False"
| "crit _ = True"

definition mutex_inv :: "'e state \<Rightarrow> bool" where
  "mutex_inv s =
     ((\<forall>t. crit (lk s t) = (ex_mutex s = Some t)) \<and>
      (\<forall>t. lk s t = Storing \<longrightarrow> ex_ptr s = None))"

lemma mutex_inv_step: "mutex_inv s \<Longrightarrow> mutex_inv (step env t s)"
proof -
  assume inv: "mutex_inv s"
  let ?s = "step env t s"
  have rel: "lock_rel t (lk s t) (ex_mutex s) (ex_ptr s) (lk ?s t) (ex_mutex ?s) (ex_ptr ?s)"
    by (rule lk_step)
  have A: "crit (lk s t) = (ex_mutex s = Some t)" and C: "lk s t = Storing \<longrightarrow> ex_ptr s = None"
    using inv unfolding mutex_inv_def by blast+
  have goal: "crit (lk ?s t') = (ex_mutex ?s = Some t') \<and> (lk ?s t' = Storing \<longrightarrow> ex_ptr ?s = None)"
    for t'
  proof (cases "t' = t")
    case True
    show ?thesis using rel A C unfolding True lock_rel_def
      by (cases "lk s t") (auto split: if_splits)
  next
    case False
    have fr: "lk ?s t' = lk s t'" using False by (rule lk_frame)
    have B: "crit (lk s t') = (ex_mutex s = Some t')"
      and D: "lk s t' = Storing \<longrightarrow> ex_ptr s = None"
      using inv unfolding mutex_inv_def by blast+
    show ?thesis using rel A B C D False unfolding fr lock_rel_def
      by (cases "lk s t"; cases "lk s t'") (auto split: if_splits)
  qed
  show ?thesis unfolding mutex_inv_def using goal by blast
qed

lemma calls_simps [simp]:
  "calls [] = []" "calls (tr @ tr') = calls tr @ calls tr'" "calls [ev] = call_of ev"
  by (simp_all add: calls_def)

lemma sinks_simps [simp]:
  "sinks [] = []" "sinks (tr @ tr') = sinks tr @ sinks tr'" "sinks [ev] = sink_of ev"
  by (simp_all add: sinks_def)

lemma stores_simps [simp]:
  "stores [] = []" "stores (tr @ tr') = stores tr @ stores tr'" "stores [ev] = store_of ev"
  by (simp_all add: stores_def)

lemma gets_simps [simp]:
  "gets [] = []" "gets (tr @ tr') = gets tr @ gets tr'" "gets [ev] = get_of ev"
  by (simp_all add: gets_def)

definition cell_rel :: "lockpc \<Rightarrow> 'e option \<Rightarrow> 'e list \<Rightarrow> 'e option \<Rightarrow> 'e list \<Rightarrow> bool" where
  "cell_rel l x st x' st' =
     (if l = Storing then \<exists>e. x' = Some e \<and> st' = st @ [e] else x' = x \<and> st' = st)"

lemma handler_cell_rel:
  "handler_step t h s = (ho, s') \<Longrightarrow>
     cell_rel (lk_handler h) (ex_ptr s) (stores (trace s)) (ex_ptr s') (stores (trace s')) \<and>
     gets (trace s') = gets (trace s)"
  by (cases h) (auto simp: cell_rel_def split: if_splits)

lemma unit_cell_rel:
  "unit_step env j u s = (u', s') \<Longrightarrow>
     cell_rel (lk_unit u) (ex_ptr s) (stores (trace s)) (ex_ptr s') (stores (trace s')) \<and>
     gets (trace s') = gets (trace s)"
proof (cases u)
  case (For_each_index off tid seq)
  assume "unit_step env j u s = (u', s')"
  then show ?thesis using For_each_index
    by (cases seq) (auto simp: cell_rel_def split: prod.splits option.splits)
next
  case (Handler h)
  assume a: "unit_step env j u s = (u', s')"
  obtain ho s1 where hs: "handler_step (Worker j) h s = (ho, s1)"
    by (cases "handler_step (Worker j) h s")
  then show ?thesis using a Handler handler_cell_rel[OF hs] by (cases ho) auto
qed (auto simp: cell_rel_def split: prod.splits option.splits if_splits)

lemma caller_cell_rel:
  "caller_step env c s = (c', s') \<Longrightarrow>
     cell_rel (lk_caller c) (ex_ptr s) (stores (trace s)) (ex_ptr s') (stores (trace s'))"
proof (cases c)
  case (Join_handler k h)
  assume a: "caller_step env c s = (c', s')"
  obtain ho s1 where hs: "handler_step Main h s = (ho, s1)"
    by (cases "handler_step Main h s")
  then show ?thesis using a Join_handler handler_cell_rel[OF hs] by (cases ho) auto
qed (auto simp: cell_rel_def split: prod.splits option.splits if_splits)

lemma cell_step:
  "cell_rel (lk s t) (ex_ptr s) (stores (trace s))
     (ex_ptr (step env t s)) (stores (trace (step env t s)))"
proof (cases t)
  case Main
  obtain c' s' where cs: "caller_step env (caller s) s = (c', s')"
    by (cases "caller_step env (caller s) s")
  show ?thesis using caller_cell_rel[OF cs] Main by (simp add: step_main[OF cs] lk_def)
next
  case (Worker j)
  show ?thesis
  proof (cases "j < length (futures s)")
    case False
    then show ?thesis using Worker by (simp add: step_worker_out lk_def cell_rel_def)
  next
    case True
    obtain u' s' where us: "unit_step env j (futures s ! j) s = (u', s')"
      by (cases "unit_step env j (futures s ! j) s")
    show ?thesis using unit_cell_rel[OF us] Worker True
      by (simp add: step_worker[OF True us] lk_def)
  qed
qed

definition cell_inv :: "'e state \<Rightarrow> bool" where
  "cell_inv s = (stores (trace s) = (case ex_ptr s of None \<Rightarrow> [] | Some e \<Rightarrow> [e]))"

lemma cell_inv_step: "mutex_inv s \<Longrightarrow> cell_inv s \<Longrightarrow> cell_inv (step env t s)"
proof -
  assume m: "mutex_inv s" and c: "cell_inv s"
  have "lk s t = Storing \<longrightarrow> ex_ptr s = None" using m unfolding mutex_inv_def by blast
  then show ?thesis using cell_step[of s t env] c
    by (auto simp: cell_inv_def cell_rel_def split: if_splits option.splits)
qed

lemma step_done: "j < length (futures s) \<Longrightarrow> futures s ! j = Done \<Longrightarrow> step env (Worker j) s = s"
proof -
  assume j: "j < length (futures s)" and d: "futures s ! j = Done"
  have "(futures s)[j := Done] = futures s" using list_update_id[of "futures s" j] d by simp
  then show ?thesis using j d by (simp add: step.simps)
qed

lemma worker_gets [simp]: "gets (trace (step env (Worker j) s)) = gets (trace s)"
proof (cases "j < length (futures s)")
  case True
  obtain u' s' where us: "unit_step env j (futures s ! j) s = (u', s')"
    by (cases "unit_step env j (futures s ! j) s")
  show ?thesis using unit_cell_rel[OF us] by (simp add: step_worker[OF True us])
qed (simp add: step_worker_out)

lemma worker_done_stays:
  "k < length (futures s) \<Longrightarrow> futures s ! k = Done \<Longrightarrow> futures (step env (Worker j) s) ! k = Done"
proof (cases "j < length (futures s)")
  case True
  assume k: "k < length (futures s)" "futures s ! k = Done"
  show ?thesis
  proof (cases "k = j")
    case True
    then show ?thesis using k by (simp add: step_done)
  next
    case False
    then show ?thesis using k True by (simp add: step_worker_futures)
  qed
qed (simp add: step_worker_out)

fun joined :: "'e caller \<Rightarrow> nat \<Rightarrow> nat" where
  "joined (Join k) n = k"
| "joined (Join_handler k h) n = Suc k"
| "joined _ n = n"

definition join_inv :: "'e state \<Rightarrow> bool" where
  "join_inv s =
     (joined (caller s) (length (futures s)) \<le> length (futures s) \<and>
      gets (trace s) = [0 ..< joined (caller s) (length (futures s))] \<and>
      (\<forall>k < joined (caller s) (length (futures s)). futures s ! k = Done))"

fun finished :: "'e caller \<Rightarrow> bool" where
  "finished Returned = True"
| "finished (Raised x) = True"
| "finished _ = False"

definition outcome_inv :: "'e state \<Rightarrow> bool" where
  "outcome_inv s =
     (case caller s of Returned \<Rightarrow> ex_ptr s = None | Raised x \<Rightarrow> ex_ptr s = Some x | _ \<Rightarrow> True)"

lemma caller_step_join:
  assumes cs: "caller_step env c s = (c', s')" and n: "n = length (futures s)"
    and le: "joined c n \<le> n" and d: "\<forall>k < joined c n. futures s ! k = Done"
  shows "joined c' n \<le> n \<and> joined c n \<le> joined c' n \<and>
         gets (trace s') = gets (trace s) @ [joined c n ..< joined c' n] \<and>
         (\<forall>k < joined c' n. futures s ! k = Done)"
proof (cases c)
  case (Join k)
  then show ?thesis using cs n le d
    by (auto split: if_splits option.splits simp: less_Suc_eq)
next
  case (Join_handler k h)
  obtain ho s1 where hs: "handler_step Main h s = (ho, s1)"
    by (cases "handler_step Main h s")
  then show ?thesis using cs Join_handler handler_cell_rel[OF hs] le d by (cases ho) auto
qed (use cs le d in \<open>auto split: if_splits option.splits\<close>)

lemma upt_join: "i \<le> j \<Longrightarrow> j \<le> k \<Longrightarrow> [i ..< j] @ [j ..< k] = [i ..< k]"
  by (metis le_Suc_ex upt_add_eq_append)

lemma join_inv_step: "join_inv s \<Longrightarrow> join_inv (step env t s)"
proof (cases t)
  case Main
  assume inv: "join_inv s"
  obtain c' s' where cs: "caller_step env (caller s) s = (c', s')"
    by (cases "caller_step env (caller s) s")
  have fr: "futures s' = futures s" using caller_step_frame[OF cs] .
  show ?thesis using caller_step_join[OF cs refl] inv Main
    by (simp add: join_inv_def step_main[OF cs] fr upt_join)
next
  case (Worker j)
  assume inv: "join_inv s"
  then show ?thesis using Worker worker_done_stays[of _ s env j]
    by (auto simp: join_inv_def)
qed

lemma finished_all_done:
  "join_inv s \<Longrightarrow> caller s = Final_lock \<or> caller s = Final_test \<or> finished (caller s) \<Longrightarrow>
     gets (trace s) = [0 ..< length (futures s)] \<and> (\<forall>k < length (futures s). futures s ! k = Done)"
  by (cases "caller s") (auto simp: join_inv_def)

lemma step_quiescent:
  assumes "join_inv s" "finished (caller s)"
  shows "step env t s = s"
proof (cases t)
  case Main
  then show ?thesis using assms(2) by (cases "caller s") (simp_all add: step.simps)
next
  case (Worker j)
  show ?thesis
  proof (cases "j < length (futures s)")
    case True
    then show ?thesis using finished_all_done[OF assms(1)] assms(2) Worker by (simp add: step_done)
  qed (simp add: Worker step_worker_out)
qed

lemma caller_step_outcome:
  "caller_step env c s = (c', s') \<Longrightarrow> \<not> finished c \<Longrightarrow>
     (case c' of Returned \<Rightarrow> ex_ptr s' = None | Raised x \<Rightarrow> ex_ptr s' = Some x | _ \<Rightarrow> True)"
proof (cases c)
  case (Join_handler k h)
  assume a: "caller_step env c s = (c', s')"
  obtain ho s1 where hs: "handler_step Main h s = (ho, s1)"
    by (cases "handler_step Main h s")
  then show ?thesis using a Join_handler by (cases ho) auto
qed (auto split: if_splits option.splits)

lemma outcome_inv_step: "join_inv s \<Longrightarrow> outcome_inv s \<Longrightarrow> outcome_inv (step env t s)"
proof (cases "finished (caller s)")
  case True
  assume "join_inv s" "outcome_inv s"
  then show ?thesis using step_quiescent[of s env t] True by simp
next
  case False
  assume "join_inv s" "outcome_inv s"
  show ?thesis
  proof (cases t)
    case Main
    obtain c' s' where cs: "caller_step env (caller s) s = (c', s')"
      by (cases "caller_step env (caller s) s")
    show ?thesis using caller_step_outcome[OF cs False] Main
      by (cases c') (simp_all add: step_main[OF cs] outcome_inv_def)
  next
    case (Worker j)
    then show ?thesis using False by (cases "caller s") (simp_all add: outcome_inv_def)
  qed
qed

definition protocol_inv :: "'e state \<Rightarrow> bool" where
  "protocol_inv s = (mutex_inv s \<and> cell_inv s \<and> join_inv s \<and> outcome_inv s)"

lemma protocol_inv_step: "protocol_inv s \<Longrightarrow> protocol_inv (step env t s)"
  by (simp add: protocol_inv_def mutex_inv_step cell_inv_step join_inv_step outcome_inv_step)

lemma protocol_inv_run: "protocol_inv s \<Longrightarrow> protocol_inv (run env sched s)"
  by (induction sched arbitrary: s) (simp_all add: run_def protocol_inv_step)

lemma protocol_inv_launched:
  "\<forall>u \<in> set us. lk_unit u = Out \<Longrightarrow> protocol_inv (launched us)"
  by (auto simp: protocol_inv_def mutex_inv_def cell_inv_def join_inv_def outcome_inv_def
      launched_def lk_def split: tid.splits)





section \<open>Claims about the failure protocol\<close>



section \<open>The protocol: what each unit has done\<close>

text \<open>
  The phase of a unit: running its chunk (0), at the increment of the counter (1), at
  the call of the sink (2), in the catch block or finished (3).
\<close>

fun phase :: "'e unit_state \<Rightarrow> nat" where
  "phase Count = 1"
| "phase (Report k) = 2"
| "phase (Handler h) = 3"
| "phase Done = 3"
| "phase _ = 0"

fun by_worker :: "'e event \<Rightarrow> nat option" where
  "by_worker (Call j p a r) = Some j"
| "by_worker (Break j p) = Some j"
| "by_worker (Incr j k) = Some j"
| "by_worker (Sink j k) = Some j"
| "by_worker _ = None"

definition news :: "'e state \<Rightarrow> 'e state \<Rightarrow> 'e event list" where
  "news s s' = drop (length (trace s)) (trace s')"

fun ev_ok :: "nat \<Rightarrow> 'e unit_state \<Rightarrow> 'e unit_state \<Rightarrow> 'e event \<Rightarrow> bool" where
  "ev_ok j u u' (Call i p a r) = (i = j \<and> phase u = 0 \<and> (r \<noteq> None \<longrightarrow> phase u' = 3))"
| "ev_ok j u u' (Break i p) = (i = j \<and> phase u = 0 \<and> phase u' = 1)"
| "ev_ok j u u' (Incr i k) = (i = j \<and> phase u = 1 \<and> u' = Report k)"
| "ev_ok j u u' (Sink i k) = (i = j \<and> u = Report k)"
| "ev_ok j u u' (Get k) = False"
| "ev_ok j u u' (Store t e) = True"

definition unit_evs :: "nat \<Rightarrow> 'e unit_state \<Rightarrow> 'e unit_state \<Rightarrow> 'e event list \<Rightarrow> bool" where
  "unit_evs j u u' evs =
     ((\<forall>ev \<in> set evs. ev_ok j u u' ev) \<and>
      (phase u = 0 \<longrightarrow> phase u' \<noteq> 2) \<and>
      (phase u = 1 \<longrightarrow> (\<exists>k. u' = Report k \<and> Incr j k \<in> set evs)) \<and>
      (\<forall>k. u = Report k \<longrightarrow> phase u' = 3 \<and> Sink j k \<in> set evs) \<and>
      (phase u = 3 \<longrightarrow> phase u' = 3))"

lemma handler_step_news:
  "handler_step t h s = (ho, s') \<Longrightarrow>
     trace s' = trace s @ news s s' \<and> (\<forall>ev \<in> set (news s s'). by_worker ev = None \<and> get_of ev = [])"
  by (cases h) (auto simp: news_def split: if_splits)

lemma unit_step_news:
  "unit_step env j u s = (u', s') \<Longrightarrow>
     trace s' = trace s @ news s s' \<and> unit_evs j u u' (news s s')"
proof (cases u)
  case (For_each_index off tid seq)
  assume "unit_step env j u s = (u', s')"
  then show ?thesis using For_each_index
    by (cases seq) (auto simp: news_def unit_evs_def split: prod.splits option.splits)
next
  case (Handler h)
  assume a: "unit_step env j u s = (u', s')"
  obtain ho s1 where hs: "handler_step (Worker j) h s = (ho, s1)"
    by (cases "handler_step (Worker j) h s")
  have s1: "s' = s1" using a Handler hs by (cases ho) auto
  have "\<forall>ev \<in> set (news s s'). ev_ok j u u' ev"
  proof
    fix ev assume "ev \<in> set (news s s')"
    then have "by_worker ev = None \<and> get_of ev = []" using handler_step_news[OF hs] s1 by simp
    then show "ev_ok j u u' ev" by (cases ev) simp_all
  qed
  moreover have "phase u = 3" "phase u' = 3" using a Handler hs by (cases ho; auto)+
  ultimately show ?thesis using handler_step_news[OF hs] s1 Handler by (simp add: unit_evs_def)
qed (auto simp: news_def unit_evs_def split: prod.splits option.splits if_splits)

lemma caller_step_news:
  "caller_step env c s = (c', s') \<Longrightarrow>
     trace s' = trace s @ news s s' \<and> (\<forall>ev \<in> set (news s s'). by_worker ev = None)"
proof (cases c)
  case (Join_handler k h)
  assume a: "caller_step env c s = (c', s')"
  obtain ho s1 where hs: "handler_step Main h s = (ho, s1)"
    by (cases "handler_step Main h s")
  then show ?thesis using a Join_handler handler_step_news[OF hs] by (cases ho) auto
qed (auto simp: news_def split: prod.splits option.splits if_splits)

definition unit_tr :: "nat \<Rightarrow> 'e unit_state \<Rightarrow> 'e event list \<Rightarrow> bool" where
  "unit_tr j u tr =
     ((\<forall>p. Break j p \<in> set tr \<longrightarrow> phase u = 1 \<or> (\<exists>k. Incr j k \<in> set tr)) \<and>
      (\<forall>k. Incr j k \<in> set tr \<longrightarrow> 2 \<le> phase u \<and> (u = Report k \<or> Sink j k \<in> set tr)) \<and>
      (\<forall>p a x. Call j p a (Some x) \<in> set tr \<longrightarrow> phase u = 3 \<and> (\<forall>k. Incr j k \<notin> set tr)) \<and>
      (\<forall>k. Sink j k \<in> set tr \<longrightarrow> Incr j k \<in> set tr) \<and>
      (\<forall>k. u = Report k \<longrightarrow> Incr j k \<in> set tr))"

lemma phase_cases: "phase u = 0 \<or> phase u = 1 \<or> (\<exists>k. u = Report k) \<or> phase u = 3"
  by (cases u) simp_all

lemma unit_tr_local:
  assumes inv: "unit_tr j u tr" and evs: "unit_evs j u u' evs"
  shows "unit_tr j u' (tr @ evs)"
proof -
  have ok: "\<And>ev. ev \<in> set evs \<Longrightarrow> ev_ok j u u' ev"
    and e0: "phase u = 0 \<Longrightarrow> phase u' \<noteq> 2"
    and e1: "phase u = 1 \<Longrightarrow> \<exists>k. u' = Report k \<and> Incr j k \<in> set evs"
    and e2: "\<And>k. u = Report k \<Longrightarrow> phase u' = 3 \<and> Sink j k \<in> set evs"
    and e3: "phase u = 3 \<Longrightarrow> phase u' = 3"
    using evs unfolding unit_evs_def by blast+
  have i1: "\<And>p. Break j p \<in> set tr \<Longrightarrow> phase u = 1 \<or> (\<exists>k. Incr j k \<in> set tr)"
    and i2: "\<And>k. Incr j k \<in> set tr \<Longrightarrow> 2 \<le> phase u \<and> (u = Report k \<or> Sink j k \<in> set tr)"
    and i3: "\<And>p a x. Call j p a (Some x) \<in> set tr \<Longrightarrow> phase u = 3 \<and> (\<forall>k. Incr j k \<notin> set tr)"
    and i4: "\<And>k. Sink j k \<in> set tr \<Longrightarrow> Incr j k \<in> set tr"
    and i5: "\<And>k. u = Report k \<Longrightarrow> Incr j k \<in> set tr"
    using inv unfolding unit_tr_def by blast+
  have c1: "phase u' = 1 \<or> (\<exists>k. Incr j k \<in> set (tr @ evs))" if "Break j p \<in> set (tr @ evs)" for p
  proof (cases "Break j p \<in> set tr")
    case True
    then show ?thesis using i1[OF True] e1 by auto
  next
    case False
    then have "Break j p \<in> set evs" using that by simp
    then show ?thesis using ok by fastforce
  qed
  have c2: "2 \<le> phase u' \<and> (u' = Report k \<or> Sink j k \<in> set (tr @ evs))"
    if "Incr j k \<in> set (tr @ evs)" for k
  proof (cases "Incr j k \<in> set tr")
    case True
    show ?thesis using i2[OF True] e2 e3 phase_cases[of u] by auto
  next
    case False
    then have "Incr j k \<in> set evs" using that by simp
    then show ?thesis using ok by fastforce
  qed
  have c3: "phase u' = 3 \<and> (\<forall>k. Incr j k \<notin> set (tr @ evs))"
    if "Call j p a (Some x) \<in> set (tr @ evs)" for p a x
  proof (cases "Call j p a (Some x) \<in> set tr")
    case True
    have "Incr j k \<notin> set evs" for k using ok[of "Incr j k"] i3[OF True] by auto
    then show ?thesis using i3[OF True] e3 by auto
  next
    case False
    then have "Call j p a (Some x) \<in> set evs" using that by simp
    then have p: "phase u = 0" "phase u' = 3" using ok by fastforce+
    have "Incr j k \<notin> set evs" for k using ok[of "Incr j k"] p by auto
    moreover have "Incr j k \<notin> set tr" for k using i2[of k] p by auto
    ultimately show ?thesis using p by auto
  qed
  have c4: "Incr j k \<in> set (tr @ evs)" if "Sink j k \<in> set (tr @ evs)" for k
  proof (cases "Sink j k \<in> set tr")
    case True
    then show ?thesis using i4 by simp
  next
    case False
    then have "Sink j k \<in> set evs" using that by simp
    then have "u = Report k" using ok by fastforce
    then show ?thesis using i5 by simp
  qed
  have c5: "Incr j k \<in> set (tr @ evs)" if "u' = Report k" for k
    using that phase_cases[of u] e0 e1 e2 e3 by auto
  show ?thesis unfolding unit_tr_def using c1 c2 c3 c4 c5 by blast
qed

lemma unit_tr_frame:
  assumes inv: "unit_tr j u tr" and evs: "\<forall>ev \<in> set evs. by_worker ev \<noteq> Some j"
  shows "unit_tr j u (tr @ evs)"
proof -
  have "ev \<in> set (tr @ evs) \<longleftrightarrow> ev \<in> set tr" if "by_worker ev = Some j" for ev :: "'a event"
    using evs that by auto
  then have "Break j p \<in> set (tr @ evs) \<longleftrightarrow> Break j p \<in> set tr"
    "Incr j k \<in> set (tr @ evs) \<longleftrightarrow> Incr j k \<in> set tr"
    "Sink j k \<in> set (tr @ evs) \<longleftrightarrow> Sink j k \<in> set tr"
    "Call j p a r \<in> set (tr @ evs) \<longleftrightarrow> Call j p a r \<in> set tr" for p k a r
    by simp_all
  then show ?thesis using inv unfolding unit_tr_def by presburger
qed

definition workers_inv :: "'e state \<Rightarrow> bool" where
  "workers_inv s =
     ((\<forall>j < length (futures s). unit_tr j (futures s ! j) (trace s)) \<and>
      (\<forall>ev \<in> set (trace s). \<forall>j. by_worker ev = Some j \<longrightarrow> j < length (futures s)))"

lemma ev_ok_worker: "ev_ok j u u' ev \<Longrightarrow> by_worker ev = Some i \<Longrightarrow> i = j"
  by (cases ev) simp_all

lemma workers_inv_step: "workers_inv s \<Longrightarrow> workers_inv (step env t s)"
proof (cases t)
  case Main
  assume inv: "workers_inv s"
  obtain c' s' where cs: "caller_step env (caller s) s = (c', s')"
    by (cases "caller_step env (caller s) s")
  have fr: "futures s' = futures s" using caller_step_frame[OF cs] .
  have tr: "trace s' = trace s @ news s s'" and nw: "\<forall>ev \<in> set (news s s'). by_worker ev = None"
    using caller_step_news[OF cs] by simp_all
  have "unit_tr j (futures s ! j) (trace s @ news s s')" if "j < length (futures s)" for j
    using inv that nw by (intro unit_tr_frame) (auto simp: workers_inv_def)
  then show ?thesis using inv nw Main
    by (auto simp: workers_inv_def step_main[OF cs] fr tr)
next
  case (Worker j)
  assume inv: "workers_inv s"
  show ?thesis
  proof (cases "j < length (futures s)")
    case False
    then show ?thesis using inv Worker by (simp add: step_worker_out)
  next
    case True
    obtain u' s' where us: "unit_step env j (futures s ! j) s = (u', s')"
      by (cases "unit_step env j (futures s ! j) s")
    have tr: "trace s' = trace s @ news s s'"
      and nw: "unit_evs j (futures s ! j) u' (news s s')"
      using unit_step_news[OF us] by simp_all
    have who: "i = j" if "ev \<in> set (news s s')" "by_worker ev = Some i" for ev i
      using nw that ev_ok_worker unfolding unit_evs_def by blast
    have "unit_tr i ((futures s)[j := u'] ! i) (trace s @ news s s')"
      if i: "i < length (futures s)" for i
    proof (cases "i = j")
      case True
      then show ?thesis using inv i nw by (auto simp: workers_inv_def intro: unit_tr_local)
    next
      case False
      have "unit_tr i (futures s ! i) (trace s @ news s s')"
        using inv i who False by (intro unit_tr_frame) (auto simp: workers_inv_def)
      then show ?thesis using False by simp
    qed
    then show ?thesis using inv who True Worker
      by (auto simp: workers_inv_def step_worker[OF True us] tr)
  qed
qed

lemma workers_inv_run: "workers_inv s \<Longrightarrow> workers_inv (run env sched s)"
  by (induction sched arbitrary: s) (simp_all add: run_def workers_inv_step)

lemma workers_inv_launched: "\<forall>u \<in> set us. phase u = 0 \<Longrightarrow> workers_inv (launched us)"
proof -
  assume a: "\<forall>u \<in> set us. phase u = 0"
  have "us ! j \<noteq> Report k" if "j < length us" for j k
    using a that nth_mem[OF that] by (metis phase.simps(2) zero_neq_numeral)
  then show ?thesis by (auto simp: workers_inv_def unit_tr_def launched_def)
qed

lemma workers_inv_returned_at_once: "workers_inv ((launched [])\<lparr>caller := Returned\<rparr>)"
  by (simp add: workers_inv_def launched_def)

lemma async_for_each_workers_inv:
  "async_for_each env ra b e nthreads sched = Inr s \<Longrightarrow> workers_inv s"
  by (auto simp: async_for_each_def workers_inv_returned_at_once unit_of_def
      intro!: workers_inv_run workers_inv_launched split: if_splits sum.splits)

fun incr_of :: "'e event \<Rightarrow> (nat \<times> nat) list" where
  "incr_of (Incr j k) = [(j, k)]"
| "incr_of _ = []"

definition incrs :: "'e event list \<Rightarrow> (nat \<times> nat) list" where
  "incrs tr = concat (map incr_of tr)"

lemma incrs_simps [simp]:
  "incrs [] = []" "incrs (tr @ tr') = incrs tr @ incrs tr'" "incrs [ev] = incr_of ev"
  by (simp_all add: incrs_def)

definition counter_rel :: "nat \<Rightarrow> bool \<Rightarrow> 'e state \<Rightarrow> 'e state \<Rightarrow> bool" where
  "counter_rel j counting s s' =
     (if counting then completed s' = Suc (completed s) \<and>
                       incrs (trace s') = incrs (trace s) @ [(j, Suc (completed s))]
      else completed s' = completed s \<and> incrs (trace s') = incrs (trace s))"

lemma handler_step_counter:
  "handler_step t h s = (ho, s') \<Longrightarrow> counter_rel j False s s'"
  by (cases h) (auto simp: counter_rel_def split: if_splits)

lemma unit_step_counter:
  "unit_step env j u s = (u', s') \<Longrightarrow> counter_rel j (u = Count) s s'"
proof (cases u)
  case (For_each_index off tid seq)
  assume "unit_step env j u s = (u', s')"
  then show ?thesis using For_each_index
    by (cases seq) (auto simp: counter_rel_def split: prod.splits option.splits)
next
  case (Handler h)
  assume a: "unit_step env j u s = (u', s')"
  obtain ho s1 where hs: "handler_step (Worker j) h s = (ho, s1)"
    by (cases "handler_step (Worker j) h s")
  then show ?thesis using a Handler handler_step_counter[OF hs, of j] by (cases ho) auto
qed (auto simp: counter_rel_def split: prod.splits option.splits if_splits)

lemma caller_step_counter:
  "caller_step env c s = (c', s') \<Longrightarrow> counter_rel 0 False s s'"
proof (cases c)
  case (Join_handler k h)
  assume a: "caller_step env c s = (c', s')"
  obtain ho s1 where hs: "handler_step Main h s = (ho, s1)"
    by (cases "handler_step Main h s")
  then show ?thesis using a Join_handler handler_step_counter[OF hs, of 0] by (cases ho) auto
qed (auto simp: counter_rel_def split: prod.splits option.splits if_splits)

definition counter_inv :: "'e state \<Rightarrow> bool" where
  "counter_inv s = (map snd (incrs (trace s)) = [1 ..< Suc (completed s)])"

lemma counter_inv_step: "counter_inv s \<Longrightarrow> counter_inv (step env t s)"
proof (cases t)
  case Main
  assume inv: "counter_inv s"
  obtain c' s' where cs: "caller_step env (caller s) s = (c', s')"
    by (cases "caller_step env (caller s) s")
  show ?thesis using caller_step_counter[OF cs] inv Main
    by (simp add: counter_inv_def counter_rel_def step_main[OF cs])
next
  case (Worker j)
  assume inv: "counter_inv s"
  show ?thesis
  proof (cases "j < length (futures s)")
    case False
    then show ?thesis using inv Worker by (simp add: step_worker_out)
  next
    case True
    obtain u' s' where us: "unit_step env j (futures s ! j) s = (u', s')"
      by (cases "unit_step env j (futures s ! j) s")
    show ?thesis using unit_step_counter[OF us] inv Worker
      by (auto simp: counter_inv_def counter_rel_def step_worker[OF True us] split: if_splits)
  qed
qed

lemma counter_inv_run: "counter_inv s \<Longrightarrow> counter_inv (run env sched s)"
  by (induction sched arbitrary: s) (simp_all add: run_def counter_inv_step)

lemma counter_inv_launched: "counter_inv (launched us)"
  by (simp add: counter_inv_def launched_def)

lemma counter_inv_returned_at_once: "counter_inv ((launched us)\<lparr>caller := Returned\<rparr>)"
  by (simp add: counter_inv_def launched_def)

lemma async_for_each_counter_inv:
  "async_for_each env ra b e nthreads sched = Inr s \<Longrightarrow> counter_inv s"
  by (auto simp: async_for_each_def counter_inv_returned_at_once
      intro!: counter_inv_run counter_inv_launched split: if_splits sum.splits)

text \<open>
  C5, the claim as stated fails. Two workers over four elements, the callable throwing
  on element 0: worker 1 processes element 2, worker 0 throws and sets the flag, then
  worker 1 finds the flag set in front of element 3 and leaves its loop by \<open>break\<close>.
  The statements after the loop are the increment and the sink call: worker 1 raises
  the counter to 1 and calls the sink with 1, although it never processed element 3.
\<close>

theorem cancelled_unit_reports_progress:
  "map_sum id (\<lambda>s. (futures s, abort s, completed s, trace s))
     (async_for_each raising_env True 0 4 2
        (replicate 2 (Worker 1) @ replicate 8 (Worker 0) @ replicate 3 (Worker 1))) =
   Inr ([Done, Done], True, 1,
        [Call 1 2 [2] None, Call 0 0 [0] (Some 7), Store (Worker 0) 7, Break 1 3,
         Incr 1 1, Sink 1 1])"
  by code_simp

text \<open>
  C5, amended. At any point of any execution of a dynamic call: a unit that left its loop
  early on the cancellation flag is at the increment, or has incremented the counter and
  is at the sink call or has called the sink with the value its increment produced; once
  it has finished it has done both. Every sink call passes the value produced by the
  same unit's increment, and the increments produce 1, 2, ... in order. A unit whose
  callable raised neither increments the counter nor calls the sink.
\<close>

theorem cancelled_unit_still_reports:
  assumes "async_for_each env ra b e nthreads sched = Inr s"
  shows "(\<forall>j p. Break j p \<in> set (trace s) \<longrightarrow>
            j < length (futures s) \<and>
            (futures s ! j = Count \<or>
             (\<exists>k. Incr j k \<in> set (trace s) \<and>
                  (futures s ! j = Report k \<or> Sink j k \<in> set (trace s))))) \<and>
         (\<forall>j p. Break j p \<in> set (trace s) \<longrightarrow> futures s ! j = Done \<longrightarrow>
            (\<exists>k. Incr j k \<in> set (trace s) \<and> Sink j k \<in> set (trace s))) \<and>
         (\<forall>j k. Sink j k \<in> set (trace s) \<longrightarrow> Incr j k \<in> set (trace s)) \<and>
         map snd (incrs (trace s)) = [1 ..< Suc (completed s)] \<and>
         (\<forall>j p a x k. Call j p a (Some x) \<in> set (trace s) \<longrightarrow>
            Incr j k \<notin> set (trace s) \<and> Sink j k \<notin> set (trace s))"
proof -
  have inv: "workers_inv s" using assms by (rule async_for_each_workers_inv)
  have lt: "j < length (futures s)" if "ev \<in> set (trace s)" "by_worker ev = Some j" for ev j
    using inv that unfolding workers_inv_def by blast
  have u: "unit_tr j (futures s ! j) (trace s)" if "j < length (futures s)" for j
    using inv that unfolding workers_inv_def by blast
  have a: "j < length (futures s) \<and>
            (futures s ! j = Count \<or>
             (\<exists>k. Incr j k \<in> set (trace s) \<and>
                  (futures s ! j = Report k \<or> Sink j k \<in> set (trace s))))"
    if br: "Break j p \<in> set (trace s)" for j p
  proof -
    have j: "j < length (futures s)" using lt[OF br] by simp
    have "phase (futures s ! j) = 1 \<or> (\<exists>k. Incr j k \<in> set (trace s))"
      using u[OF j] br unfolding unit_tr_def by blast
    moreover have "phase (futures s ! j) = 1 \<Longrightarrow> futures s ! j = Count"
      by (cases "futures s ! j") simp_all
    moreover have "Incr j k \<in> set (trace s) \<Longrightarrow>
        futures s ! j = Report k \<or> Sink j k \<in> set (trace s)" for k
      using u[OF j] unfolding unit_tr_def by blast
    ultimately show ?thesis using j by blast
  qed
  have b: "\<exists>k. Incr j k \<in> set (trace s) \<and> Sink j k \<in> set (trace s)"
    if "Break j p \<in> set (trace s)" "futures s ! j = Done" for j p
    using a[OF that(1)] that(2) by auto
  have c: "Incr j k \<in> set (trace s)" if sk: "Sink j k \<in> set (trace s)" for j k
    using u[OF lt[OF sk]] sk unfolding unit_tr_def by simp
  have d: "Incr j k \<notin> set (trace s) \<and> Sink j k \<notin> set (trace s)"
    if cl: "Call j p a (Some x) \<in> set (trace s)" for j p a x k
  proof -
    have "Incr j k \<notin> set (trace s)" using u[OF lt[OF cl]] cl unfolding unit_tr_def by simp blast
    then show ?thesis using c by blast
  qed
  have e: "map snd (incrs (trace s)) = [1 ..< Suc (completed s)]"
    using async_for_each_counter_inv[OF assms] by (simp add: counter_inv_def)
  show ?thesis using a b c d e by blast
qed

theorem cancelled_unit_still_reports_witness:
  "\<exists>s. async_for_each raising_env True 0 4 2
          (replicate 2 (Worker 1) @ replicate 8 (Worker 0) @ replicate 3 (Worker 1)) = Inr s \<and>
        Break 1 3 \<in> set (trace s) \<and> futures s ! 1 = Done \<and>
        Incr 1 1 \<in> set (trace s) \<and> Sink 1 1 \<in> set (trace s) \<and> completed s = 1 \<and>
        Call 0 0 [0] (Some 7) \<in> set (trace s) \<and> Incr 0 1 \<notin> set (trace s) \<and>
        map snd (incrs (trace s)) = [1]"
proof -
  let ?r = "async_for_each raising_env True 0 4 2
          (replicate 2 (Worker 1) @ replicate 8 (Worker 0) @ replicate 3 (Worker 1))"
  have "map_sum id (\<lambda>s. (futures s, completed s, trace s)) ?r =
      Inr ([Done, Done], 1,
        [Call 1 2 [2] None, Call 0 0 [0] (Some 7), Store (Worker 0) 7, Break 1 3,
         Incr 1 1, Sink 1 1])"
    by code_simp
  then obtain s where s: "?r = Inr s" "futures s = [Done, Done]" "completed s = 1"
      "trace s = [Call 1 2 [2] None, Call 0 0 [0] (Some 7), Store (Worker 0) 7, Break 1 3,
         Incr 1 1, Sink 1 1]"
    by (cases ?r) auto
  have "Call 0 0 [0] (Some 7) \<in> set (trace s)" using s(4) by simp
  then have "Incr 0 1 \<notin> set (trace s)"
    and "map snd (incrs (trace s)) = [1 ..< Suc (completed s)]"
    using cancelled_unit_still_reports[OF s(1)] by blast+
  then show ?thesis using s by simp
qed

section \<open>Runs in which nothing is thrown\<close>

text \<open>The events of a trace that worker \<open>j\<close> produced itself.\<close>

definition own :: "nat \<Rightarrow> 'e event list \<Rightarrow> 'e event list" where
  "own j tr = filter (\<lambda>ev. by_worker ev = Some j) tr"

lemma own_simps [simp]:
  "own j [] = []" "own j (tr @ tr') = own j tr @ own j tr'"
  by (simp_all add: own_def)

lemma own_frame: "\<forall>ev \<in> set evs. by_worker ev \<noteq> Some j \<Longrightarrow> own j evs = []"
  by (simp add: own_def)

lemma own_self: "\<forall>ev \<in> set evs. by_worker ev = Some j \<Longrightarrow> own j evs = evs"
  by (simp add: own_def)

lemma sum_delta_mset:
  "k < (n::nat) \<Longrightarrow>
     (\<Sum>j<n. (if k = j then m else ({#} :: 'a multiset)) + f j) = m + (\<Sum>j<n. f j)"
proof -
  assume k: "k < n"
  have "(\<Sum>j<n. if k = j then m else {#}) = m"
    using sum.delta'[of "{..<n}" k "\<lambda>_. m"] k by simp
  then show ?thesis by (simp add: sum.distrib)
qed

lemma mset_by_worker:
  fixes proj :: "'e event \<Rightarrow> 'b list"
  assumes keys: "\<forall>ev \<in> set tr. \<forall>j. by_worker ev = Some j \<longrightarrow> j < n"
    and proj: "\<And>ev. by_worker ev = None \<Longrightarrow> proj ev = []"
  shows "mset (concat (map proj tr)) = (\<Sum>j<n. mset (concat (map proj (own j tr))))"
  using keys
proof (induction tr)
  case Nil
  then show ?case by simp
next
  case (Cons ev tr)
  have IH: "mset (concat (map proj tr)) = (\<Sum>j<n. mset (concat (map proj (own j tr))))"
    using Cons by simp
  show ?case
  proof (cases "by_worker ev")
    case None
    then have "own j (ev # tr) = own j tr" for j by (simp add: own_def)
    then show ?thesis using IH proj[OF None] by simp
  next
    case (Some k)
    then have k: "k < n" using Cons.prems by simp
    have "mset (concat (map proj (own j (ev # tr)))) =
        (if k = j then mset (proj ev) else {#}) + mset (concat (map proj (own j tr)))" for j
      using Some by (simp add: own_def)
    then have "(\<Sum>j<n. mset (concat (map proj (own j (ev # tr))))) =
        mset (proj ev) + (\<Sum>j<n. mset (concat (map proj (own j tr))))"
      using sum_delta_mset[OF k, of "mset (proj ev)"] by simp
    then show ?thesis using IH by simp
  qed
qed

definition never_raises :: "'e env \<Rightarrow> bool" where
  "never_raises env =
     ((\<forall>p idx i. fst (snd (invoke (callable env) p idx i)) = None) \<and>
      (\<forall>k. progress env k = None) \<and> (\<forall>k. future_get env k = None))"

definition idx_at :: "'e callable \<Rightarrow> chunk \<Rightarrow> nat \<Rightarrow> nat" where
  "idx_at f c p =
     (case f of
        Elem g \<Rightarrow> idx_offset c
      | Elem_Idx g \<Rightarrow> idx_offset c + (p - local_chunk_begin c)
      | Elem_Idx_Tid g \<Rightarrow> idx_offset c + (p - local_chunk_begin c))"

definition call_at :: "'e env \<Rightarrow> nat \<Rightarrow> chunk \<Rightarrow> nat \<Rightarrow> 'e event" where
  "call_at env j c p =
     Call j p (fst (invoke (callable env) p (idx_at (callable env) c p) (thread_id c))) None"

definition chunk_calls :: "'e env \<Rightarrow> nat \<Rightarrow> chunk \<Rightarrow> nat \<Rightarrow> 'e event list" where
  "chunk_calls env j c lim = map (call_at env j c) [local_chunk_begin c ..< lim]"

fun qunit :: "'e env \<Rightarrow> nat \<Rightarrow> chunk \<Rightarrow> 'e unit_state \<Rightarrow> 'e event list \<Rightarrow> bool" where
  "qunit env j c (Loop c' it idx) tr =
     (c' = c \<and> local_chunk_begin c \<le> it \<and> it \<le> local_chunk_end c \<and>
      idx = idx_at (callable env) c it \<and> tr = chunk_calls env j c it)"
| "qunit env j c (Invoke c' it idx) tr =
     (c' = c \<and> local_chunk_begin c \<le> it \<and> it < local_chunk_end c \<and>
      idx = idx_at (callable env) c it \<and> tr = chunk_calls env j c it)"
| "qunit env j c Count tr = (tr = chunk_calls env j c (local_chunk_end c))"
| "qunit env j c (Report k) tr = (tr = chunk_calls env j c (local_chunk_end c) @ [Incr j k])"
| "qunit env j c Done tr =
     (\<exists>k. tr = chunk_calls env j c (local_chunk_end c) @ [Incr j k, Sink j k])"
| "qunit env j c _ tr = False"

fun quiet_caller :: "'e caller \<Rightarrow> bool" where
  "quiet_caller (Join_handler k h) = False"
| "quiet_caller (Raised x) = False"
| "quiet_caller _ = True"

definition quiet_inv :: "'e env \<Rightarrow> chunk list \<Rightarrow> 'e state \<Rightarrow> bool" where
  "quiet_inv env cs s =
     (length (futures s) = length cs \<and> \<not> abort s \<and> ex_ptr s = None \<and>
      quiet_caller (caller s) \<and>
      (\<forall>j < length cs. qunit env j (cs ! j) (futures s ! j) (own j (trace s))))"

lemma idx_at_Suc:
  "local_chunk_begin c \<le> it \<Longrightarrow>
     snd (snd (invoke f it (idx_at f c it) i)) = idx_at f c (Suc it)"
  by (cases f) (simp_all add: idx_at_def Suc_diff_le)

lemma qunit_step:
  assumes nr: "never_raises env" and na: "\<not> abort s"
    and q: "qunit env j c u (own j (trace s))"
    and us: "unit_step env j u s = (u', s')"
  shows "qunit env j c u' (own j (trace s')) \<and> \<not> abort s' \<and> ex_ptr s' = ex_ptr s \<and>
         (\<forall>i. i \<noteq> j \<longrightarrow> own i (trace s') = own i (trace s))"
proof (cases u)
  case (Loop c' it idx)
  then show ?thesis using q us na by (auto split: if_splits)
next
  case (Invoke c' it idx)
  then have c: "c' = c" and it: "local_chunk_begin c \<le> it" "it < local_chunk_end c"
    and idx: "idx = idx_at (callable env) c it" and tr: "own j (trace s) = chunk_calls env j c it"
    using q by simp_all
  obtain args r idx' where inv: "invoke (callable env) it idx (thread_id c) = (args, r, idx')"
    by (cases "invoke (callable env) it idx (thread_id c)")
  have r: "r = None" using nr inv unfolding never_raises_def by (metis fst_conv snd_conv)
  have idx': "idx' = idx_at (callable env) c (Suc it)"
    using idx_at_Suc[OF it(1), of "callable env" "thread_id c"] inv idx by simp
  have ev: "call_at env j c it = Call j it args None"
    using inv idx by (simp add: call_at_def)
  have u': "u' = Loop c (Suc it) idx'" and s': "s' = s\<lparr>trace := trace s @ [Call j it args None]\<rparr>"
    using us Invoke c inv r by simp_all
  have "chunk_calls env j c (Suc it) = chunk_calls env j c it @ [Call j it args None]"
    using it ev by (simp add: chunk_calls_def)
  then show ?thesis using u' s' it idx' tr na by (simp add: own_def)
next
  case Count
  then show ?thesis using q us na by (auto simp: own_def)
next
  case (Report k)
  then show ?thesis using q us na nr by (auto simp: own_def never_raises_def)
next
  case Done
  then show ?thesis using q us na by auto
qed (use q in simp_all)

lemma quiet_caller_step:
  assumes nr: "never_raises env" and q: "quiet_caller c" and x: "ex_ptr s = None"
    and cs: "caller_step env c s = (c', s')"
  shows "quiet_caller c' \<and> abort s' = abort s \<and> ex_ptr s' = None \<and>
         (\<forall>i. own i (trace s') = own i (trace s))"
  using q cs nr x by (cases c) (auto simp: own_def never_raises_def split: if_splits option.splits)

lemma quiet_inv_step:
  assumes nr: "never_raises env" and inv: "quiet_inv env cs s"
  shows "quiet_inv env cs (step env t s)"
proof (cases t)
  case Main
  obtain c' s' where cs: "caller_step env (caller s) s = (c', s')"
    by (cases "caller_step env (caller s) s")
  have fr: "futures s' = futures s" using caller_step_frame[OF cs] .
  show ?thesis using quiet_caller_step[OF nr _ _ cs] inv Main
    by (simp add: quiet_inv_def step_main[OF cs] fr)
next
  case (Worker j)
  show ?thesis
  proof (cases "j < length (futures s)")
    case False
    then show ?thesis using inv Worker by (simp add: step_worker_out)
  next
    case True
    obtain u' s' where us: "unit_step env j (futures s ! j) s = (u', s')"
      by (cases "unit_step env j (futures s ! j) s")
    have fr: "caller s' = caller s" using unit_step_frame[OF us] by simp
    have j: "j < length cs" using True inv by (simp add: quiet_inv_def)
    have na: "\<not> abort s" and q: "qunit env j (cs ! j) (futures s ! j) (own j (trace s))"
      using inv j by (simp_all add: quiet_inv_def)
    note st = qunit_step[OF nr na q us]
    have "qunit env i (cs ! i) ((futures s)[j := u'] ! i) (own i (trace s'))"
      if "i < length cs" for i
      using st inv that True by (cases "i = j") (simp_all add: quiet_inv_def)
    then show ?thesis using st inv Worker
      by (simp add: quiet_inv_def step_worker[OF True us] fr)
  qed
qed

lemma quiet_inv_run:
  "never_raises env \<Longrightarrow> quiet_inv env cs s \<Longrightarrow> quiet_inv env cs (run env sched s)"
  by (induction sched arbitrary: s) (simp_all add: run_def quiet_inv_step)

lemma quiet_inv_launched:
  "\<forall>c \<in> set cs. local_chunk_begin c \<le> local_chunk_end c \<Longrightarrow>
     quiet_inv env cs (launched (map unit_of cs))"
  by (simp add: quiet_inv_def launched_def unit_of_def idx_at_def chunk_calls_def
      split: callable.splits)

section \<open>Every call can finish\<close>

text \<open>
  A bound on the atomic steps each thread still has to take; a step of a thread that is
  not blocked lowers its bound.
\<close>

fun handler_left :: "'e handler \<Rightarrow> nat" where
  "handler_left (H_check e) = 6"
| "handler_left (H_lock e) = 5"
| "handler_left (H_test e) = 4"
| "handler_left (H_store e) = 3"
| "handler_left H_abort = 2"
| "handler_left H_unlock = 1"

fun unit_left :: "'e unit_state \<Rightarrow> nat" where
  "unit_left (Loop c it idx) = 2 * (local_chunk_end c - it) + 9"
| "unit_left (Invoke c it idx) = 2 * (local_chunk_end c - it) + 8"
| "unit_left Count = 8"
| "unit_left (Report k) = 7"
| "unit_left (Start c Ns Is) = length (chunk_type c Ns) + 9"
| "unit_left (For_each_index off tid seq) = length seq + 8"
| "unit_left (Handler h) = handler_left h"
| "unit_left Done = 0"

fun caller_left :: "nat \<Rightarrow> 'e caller \<Rightarrow> nat" where
  "caller_left n (Join k) = 7 * (n - k) + 3"
| "caller_left n (Join_handler k h) = 7 * (n - Suc k) + 3 + handler_left h"
| "caller_left n Final_lock = 2"
| "caller_left n Final_test = 1"
| "caller_left n Returned = 0"
| "caller_left n (Raised x) = 0"

definition steps_left :: "'e state \<Rightarrow> nat" where
  "steps_left s = sum_list (map unit_left (futures s)) + caller_left (length (futures s)) (caller s)"

fun loop_wf :: "'e unit_state \<Rightarrow> bool" where
  "loop_wf (Loop c it idx) = (it \<le> local_chunk_end c)"
| "loop_wf (Invoke c it idx) = (it < local_chunk_end c)"
| "loop_wf _ = True"

lemma handler_progress:
  "handler_step t h s = (ho, s') \<Longrightarrow> lk_handler h = Acquiring \<longrightarrow> ex_mutex s = None \<Longrightarrow>
     (case ho of None \<Rightarrow> 0 | Some h' \<Rightarrow> handler_left h') < handler_left h"
  by (cases h) (auto split: if_splits)

lemma unit_progress:
  assumes us: "unit_step env j u s = (u', s')" and wf: "loop_wf u" and nd: "u \<noteq> Done"
    and free: "lk_unit u = Acquiring \<longrightarrow> ex_mutex s = None"
  shows "unit_left u' < unit_left u \<and> loop_wf u'"
proof (cases u)
  case (For_each_index off tid seq)
  then show ?thesis using us
    by (cases seq) (auto split: prod.splits option.splits)
next
  case (Handler h)
  obtain ho s1 where hs: "handler_step (Worker j) h s = (ho, s1)"
    by (cases "handler_step (Worker j) h s")
  then show ?thesis using us Handler handler_progress[OF hs] free by (cases ho) auto
next
  case Done
  then show ?thesis using nd by simp
qed (use us wf in \<open>auto split: prod.splits option.splits if_splits\<close>)

lemma unit_keeps_wf:
  "unit_step env j u s = (u', s') \<Longrightarrow> loop_wf u \<Longrightarrow> loop_wf u'"
proof (cases u)
  case (For_each_index off tid seq)
  assume "unit_step env j u s = (u', s')"
  then show ?thesis using For_each_index
    by (cases seq) (auto split: prod.splits option.splits)
next
  case (Handler h)
  assume us: "unit_step env j u s = (u', s')"
  obtain ho s1 where hs: "handler_step (Worker j) h s = (ho, s1)"
    by (cases "handler_step (Worker j) h s")
  then show ?thesis using us Handler by (cases ho) auto
qed (auto split: prod.splits option.splits if_splits)

lemma caller_progress:
  assumes cs: "caller_step env c s = (c', s')" and nf: "\<not> finished c"
    and free: "lk_caller c = Acquiring \<longrightarrow> ex_mutex s = None"
    and ready: "\<forall>k. c = Join k \<longrightarrow> k < length (futures s) \<longrightarrow> futures s ! k = Done"
  shows "caller_left (length (futures s)) c' < caller_left (length (futures s)) c"
proof (cases c)
  case (Join k)
  then show ?thesis using cs ready by (auto split: if_splits option.splits)
next
  case (Join_handler k h)
  obtain ho s1 where hs: "handler_step Main h s = (ho, s1)"
    by (cases "handler_step Main h s")
  then show ?thesis using cs Join_handler handler_progress[OF hs] free by (cases ho) auto
qed (use cs nf free in \<open>auto split: if_splits option.splits\<close>)

definition loops_wf :: "'e state \<Rightarrow> bool" where
  "loops_wf s = (\<forall>j < length (futures s). loop_wf (futures s ! j))"

lemma loops_wf_step: "loops_wf s \<Longrightarrow> loops_wf (step env t s)"
proof (cases t)
  case Main
  assume "loops_wf s"
  then show ?thesis using Main by (simp add: loops_wf_def)
next
  case (Worker j)
  assume wf: "loops_wf s"
  show ?thesis
  proof (cases "j < length (futures s)")
    case False
    then show ?thesis using wf Worker by (simp add: step_worker_out)
  next
    case True
    obtain u' s' where us: "unit_step env j (futures s ! j) s = (u', s')"
      by (cases "unit_step env j (futures s ! j) s")
    have "loop_wf u'" using unit_keeps_wf[OF us] wf True by (simp add: loops_wf_def)
    then show ?thesis using wf Worker True
      by (auto simp: loops_wf_def step_worker[OF True us] nth_list_update)
  qed
qed

lemma sum_list_update_less:
  fixes f :: "'a \<Rightarrow> nat"
  shows "j < length xs \<Longrightarrow> f x < f (xs ! j) \<Longrightarrow>
    sum_list (map f (xs[j := x])) < sum_list (map f xs)"
proof (induction xs arbitrary: j)
  case Nil
  then show ?case by simp
next
  case (Cons a xs)
  then show ?case by (cases j) auto
qed

lemma worker_moves:
  assumes j: "j < length (futures s)" and wf: "loops_wf s" and nd: "futures s ! j \<noteq> Done"
    and free: "lk_unit (futures s ! j) = Acquiring \<longrightarrow> ex_mutex s = None"
  shows "steps_left (step env (Worker j) s) < steps_left s"
proof -
  obtain u' s' where us: "unit_step env j (futures s ! j) s = (u', s')"
    by (cases "unit_step env j (futures s ! j) s")
  have wfj: "loop_wf (futures s ! j)" using wf j by (simp add: loops_wf_def)
  have "unit_left u' < unit_left (futures s ! j)"
    using unit_progress[OF us wfj nd free] by simp
  then have "sum_list (map unit_left ((futures s)[j := u'])) < sum_list (map unit_left (futures s))"
    using j by (intro sum_list_update_less)
  moreover have "caller s' = caller s" using unit_step_frame[OF us] by simp
  ultimately show ?thesis by (simp add: steps_left_def step_worker[OF j us])
qed

lemma caller_moves:
  assumes nf: "\<not> finished (caller s)"
    and free: "lk_caller (caller s) = Acquiring \<longrightarrow> ex_mutex s = None"
    and ready: "\<forall>k. caller s = Join k \<longrightarrow> k < length (futures s) \<longrightarrow> futures s ! k = Done"
  shows "steps_left (step env Main s) < steps_left s"
proof -
  obtain c' s' where cs: "caller_step env (caller s) s = (c', s')"
    by (cases "caller_step env (caller s) s")
  have "futures s' = futures s" using caller_step_frame[OF cs] .
  then show ?thesis using caller_progress[OF cs nf free ready]
    by (simp add: steps_left_def step_main[OF cs])
qed

lemma some_thread_moves:
  assumes m: "mutex_inv s" and wf: "loops_wf s" and nf: "\<not> finished (caller s)"
  shows "\<exists>t. steps_left (step env t s) < steps_left s"
proof (cases "ex_mutex s")
  case (Some t)
  then have cr: "crit (lk s t)" using m unfolding mutex_inv_def by blast
  show ?thesis
  proof (cases t)
    case Main
    have "lk_caller (caller s) \<noteq> Acquiring" "\<forall>k. caller s \<noteq> Join k"
      using cr Main by (auto simp: lk_def)
    then have "steps_left (step env Main s) < steps_left s"
      using nf by (intro caller_moves) auto
    then show ?thesis by blast
  next
    case (Worker j)
    then have j: "j < length (futures s)" and c: "crit (lk_unit (futures s ! j))"
      using cr by (auto simp: lk_def split: if_splits)
    have "futures s ! j \<noteq> Done" "lk_unit (futures s ! j) \<noteq> Acquiring" using c by auto
    then have "steps_left (step env (Worker j) s) < steps_left s"
      using j wf by (intro worker_moves) auto
    then show ?thesis by blast
  qed
next
  case None
  show ?thesis
  proof (cases "\<exists>k. caller s = Join k \<and> k < length (futures s) \<and> futures s ! k \<noteq> Done")
    case True
    then obtain k where k: "k < length (futures s)" "futures s ! k \<noteq> Done" by blast
    then have "steps_left (step env (Worker k) s) < steps_left s"
      using wf None by (intro worker_moves) auto
    then show ?thesis by blast
  next
    case False
    then have "steps_left (step env Main s) < steps_left s"
      using nf None by (intro caller_moves) auto
    then show ?thesis by blast
  qed
qed

lemma can_finish:
  "protocol_inv s \<Longrightarrow> loops_wf s \<Longrightarrow> \<exists>sched. finished (caller (run env sched s))"
proof (induction "steps_left s" arbitrary: s rule: less_induct)
  case less
  show ?case
  proof (cases "finished (caller s)")
    case True
    then have "finished (caller (run env [] s))" by (simp add: run_def)
    then show ?thesis by blast
  next
    case False
    have "mutex_inv s" using less.prems(1) by (simp add: protocol_inv_def)
    then obtain t where t: "steps_left (step env t s) < steps_left s"
      using some_thread_moves[OF _ less.prems(2) False] by blast
    have "protocol_inv (step env t s)" "loops_wf (step env t s)"
      using less.prems by (simp_all add: protocol_inv_step loops_wf_step)
    then obtain sched where "finished (caller (run env sched (step env t s)))"
      using less.hyps[OF t] by blast
    then have "finished (caller (run env (t # sched) s))" by (simp add: run_def)
    then show ?thesis by blast
  qed
qed

lemma run_append: "run env (sched @ sched') s = run env sched' (run env sched s)"
  by (simp add: run_def)

lemma sum_mset_upt_chain:
  "(\<And>k. k < n \<Longrightarrow> f k \<le> f (Suc k)) \<Longrightarrow>
     (\<Sum>j<n. mset [f j ..< f (Suc j)]) = mset [f 0 ..< f n] \<and> f 0 \<le> f (n::nat)"
proof (induction n)
  case 0
  then show ?case by simp
next
  case (Suc n)
  then have IH: "(\<Sum>j<n. mset [f j ..< f (Suc j)]) = mset [f 0 ..< f n]" "f 0 \<le> f n"
    by simp_all
  have st: "f n \<le> f (Suc n)" using Suc.prems by simp
  have "mset [f 0 ..< f n] + mset [f n ..< f (Suc n)] = mset [f 0 ..< f (Suc n)]"
    using upt_join[OF IH(2) st] by (metis mset_append)
  then show ?case using IH st by simp
qed

lemma sum_mset_singletons: "(\<Sum>j<n. {#j#}) = mset [0 ..< (n::nat)]"
  by (simp add: lessThan_atLeast0)

lemma calls_chunk_calls:
  "map (fst \<circ> snd) (calls (chunk_calls env j c lim)) = [local_chunk_begin c ..< lim]"
proof -
  have "map (fst \<circ> snd) (calls (map (call_at env j c) xs)) = xs" for xs
    by (induction xs) (simp_all add: calls_def call_at_def)
  then show ?thesis by (simp add: chunk_calls_def)
qed

lemma sinks_chunk_calls [simp]: "sinks (chunk_calls env j c lim) = []"
proof -
  have "sinks (map (call_at env j c) xs) = []" for xs
    by (induction xs) (simp_all add: sinks_def call_at_def)
  then show ?thesis by (simp add: chunk_calls_def)
qed

lemma incrs_chunk_calls [simp]: "incrs (chunk_calls env j c lim) = []"
proof -
  have "incrs (map (call_at env j c) xs) = []" for xs
    by (induction xs) (simp_all add: incrs_def call_at_def)
  then show ?thesis by (simp add: chunk_calls_def)
qed

text \<open>The boundary in front of chunk \<open>k\<close>; the one after the last chunk is \<open>end\<close>.\<close>

definition boundary :: "nat \<Rightarrow> nat \<Rightarrow> nat \<Rightarrow> nat \<Rightarrow> nat" where
  "boundary b e n k = (if k = n then e else b + k * ((e - b) div n))"

lemma nth_chunk_boundary:
  assumes "k < n"
  shows "local_chunk_begin (nth_chunk b e n k) = boundary b e n k"
    and "local_chunk_end (nth_chunk b e n k) = boundary b e n (Suc k)"
    and "thread_id (nth_chunk b e n k) = k"
  using assms by (auto simp: nth_chunk_def boundary_def Let_def)

lemma boundary_mono:
  assumes n: "0 < n" "n \<le> e - b" and k: "k < n"
  shows "boundary b e n k < boundary b e n (Suc k)"
proof -
  define q where "q = (e - b) div n"
  have q: "0 < q" unfolding q_def using n by (simp add: div_greater_zero_iff)
  have nq: "n * q \<le> e - b" unfolding q_def by simp
  have "Suc k * q \<le> n * q" using k by (intro mult_le_mono1) simp
  then have le: "b + k * q + q \<le> e" using nq n by simp
  show ?thesis
  proof (cases "Suc k = n")
    case True
    then show ?thesis using le q k by (simp add: boundary_def q_def [symmetric])
  next
    case False
    then show ?thesis using q k by (simp add: boundary_def q_def [symmetric])
  qed
qed

lemma proj_by_worker:
  fixes g :: "'e event \<Rightarrow> 'b list" and f :: "'b \<Rightarrow> 'c"
  assumes keys: "\<forall>ev \<in> set tr. \<forall>j. by_worker ev = Some j \<longrightarrow> j < n"
    and g: "\<And>ev. by_worker ev = None \<Longrightarrow> g ev = []"
  shows "mset (map f (concat (map g tr))) = (\<Sum>j<n. mset (map f (concat (map g (own j tr)))))"
proof -
  have "mset (concat (map (\<lambda>ev. map f (g ev)) tr)) =
      (\<Sum>j<n. mset (concat (map (\<lambda>ev. map f (g ev)) (own j tr))))"
    using keys by (rule mset_by_worker) (simp add: g)
  then show ?thesis by (simp add: map_concat comp_def)
qed

lemma projections_Cons [simp]:
  "calls (ev # tr) = call_of ev @ calls tr" "sinks (ev # tr) = sink_of ev @ sinks tr"
  "incrs (ev # tr) = incr_of ev @ incrs tr" "stores (ev # tr) = store_of ev @ stores tr"
  "gets (ev # tr) = get_of ev @ gets tr"
  by (simp_all add: calls_def sinks_def incrs_def stores_def gets_def)

lemma call_of_none: "by_worker ev = None \<Longrightarrow> call_of ev = []"
  by (cases ev) simp_all

lemma sink_of_none: "by_worker ev = None \<Longrightarrow> sink_of ev = []"
  by (cases ev) simp_all

lemma incr_of_none: "by_worker ev = None \<Longrightarrow> incr_of ev = []"
  by (cases ev) simp_all

lemma quiet_finished:
  assumes q: "quiet_inv env cs s" and j: "join_inv s" and w: "workers_inv s"
    and c: "counter_inv s" and fin: "finished (caller s)"
  shows "caller s = Returned \<and>
         mset (map (fst \<circ> snd) (calls (trace s))) =
           (\<Sum>j<length cs. mset [local_chunk_begin (cs ! j) ..< local_chunk_end (cs ! j)]) \<and>
         mset (map fst (sinks (trace s))) = mset [0 ..< length cs] \<and>
         mset (map snd (sinks (trace s))) = mset [1 ..< Suc (length cs)] \<and>
         completed s = length cs"
proof -
  let ?n = "length cs" and ?tr = "trace s"
  have len: "length (futures s) = ?n" using q by (simp add: quiet_inv_def)
  have ret: "caller s = Returned"
    using q fin by (cases "caller s") (simp_all add: quiet_inv_def)
  have dn: "futures s ! i = Done" if "i < ?n" for i
    using finished_all_done[OF j] fin that len by simp
  have "\<exists>k. own i ?tr = chunk_calls env i (cs ! i) (local_chunk_end (cs ! i)) @ [Incr i k, Sink i k]"
    if "i < ?n" for i
    using q that dn[OF that] by (auto simp: quiet_inv_def)
  then have "\<forall>i. \<exists>k. i < ?n \<longrightarrow>
      own i ?tr = chunk_calls env i (cs ! i) (local_chunk_end (cs ! i)) @ [Incr i k, Sink i k]"
    by blast
  then obtain K where K: "\<And>i. i < ?n \<Longrightarrow>
      own i ?tr = chunk_calls env i (cs ! i) (local_chunk_end (cs ! i)) @ [Incr i (K i), Sink i (K i)]"
    using choice[of "\<lambda>i k. i < ?n \<longrightarrow>
      own i ?tr = chunk_calls env i (cs ! i) (local_chunk_end (cs ! i)) @ [Incr i k, Sink i k]"]
    by blast
  have keys: "\<forall>ev \<in> set ?tr. \<forall>i. by_worker ev = Some i \<longrightarrow> i < ?n"
    using w len by (simp add: workers_inv_def)
  have "mset (map (fst \<circ> snd) (calls ?tr)) = (\<Sum>i<?n. mset (map (fst \<circ> snd) (calls (own i ?tr))))"
    unfolding calls_def using keys by (rule proj_by_worker) (rule call_of_none)
  also have "\<dots> = (\<Sum>i<?n. mset [local_chunk_begin (cs ! i) ..< local_chunk_end (cs ! i)])"
    by (rule sum.cong) (simp_all add: K calls_chunk_calls)
  finally have pos: "mset (map (fst \<circ> snd) (calls ?tr)) =
      (\<Sum>i<?n. mset [local_chunk_begin (cs ! i) ..< local_chunk_end (cs ! i)])" .
  have "mset (map fst (sinks ?tr)) = (\<Sum>i<?n. mset (map fst (sinks (own i ?tr))))"
    unfolding sinks_def using keys by (rule proj_by_worker) (rule sink_of_none)
  also have "\<dots> = (\<Sum>i<?n. {#i#})"
    by (rule sum.cong) (simp_all add: K)
  finally have wid: "mset (map fst (sinks ?tr)) = mset [0 ..< ?n]"
    by (simp only: sum_mset_singletons)
  have "mset (map snd (sinks ?tr)) = (\<Sum>i<?n. mset (map snd (sinks (own i ?tr))))"
    unfolding sinks_def using keys by (rule proj_by_worker) (rule sink_of_none)
  also have "\<dots> = (\<Sum>i<?n. {#K i#})"
    by (rule sum.cong) (simp_all add: K)
  also have "\<dots> = (\<Sum>i<?n. mset (map snd (incrs (own i ?tr))))"
    by (rule sum.cong) (simp_all add: K)
  also have "\<dots> = mset (map snd (incrs ?tr))"
    unfolding incrs_def using keys by (rule proj_by_worker[symmetric]) (rule incr_of_none)
  finally have vi: "mset (map snd (sinks ?tr)) = mset (map snd (incrs ?tr))" .
  have ci: "map snd (incrs ?tr) = [1 ..< Suc (completed s)]"
    using c by (simp only: counter_inv_def)
  have val: "mset (map snd (sinks ?tr)) = mset [1 ..< Suc (completed s)]"
    using vi by (simp only: ci)
  have "size (mset (map snd (sinks ?tr))) = size (mset (map fst (sinks ?tr)))"
    by (simp only: size_mset length_map)
  then have "length [1 ..< Suc (completed s)] = length [0 ..< ?n]"
    by (simp only: val wid size_mset)
  then have cn: "completed s = ?n" by (simp del: upt_Suc)
  show ?thesis using ret pos wid val unfolding cn by blast
qed

definition chunks_of :: "nat \<Rightarrow> nat \<Rightarrow> nat \<Rightarrow> chunk list" where
  "chunks_of b e t = map (nth_chunk b e (min t (e - b))) [0 ..< min t (e - b)]"

lemma async_for_each_unfold:
  "b < e \<Longrightarrow> 1 \<le> t \<Longrightarrow>
     async_for_each env ra b e t sched =
       Inr (run env sched (launched (map unit_of (chunks_of b e t))))"
  by (simp add: async_for_each_def partition_chunks_closed chunks_of_def)

lemma chunks_of_facts:
  assumes "b < e" "1 \<le> t" and k: "k < min t (e - b)"
  shows "local_chunk_begin (chunks_of b e t ! k) = boundary b e (min t (e - b)) k"
    and "local_chunk_end (chunks_of b e t ! k) = boundary b e (min t (e - b)) (Suc k)"
    and "thread_id (chunks_of b e t ! k) = k"
    and "boundary b e (min t (e - b)) k < boundary b e (min t (e - b)) (Suc k)"
proof -
  have n: "0 < min t (e - b)" "min t (e - b) \<le> e - b" using assms by simp_all
  have nth: "chunks_of b e t ! k = nth_chunk b e (min t (e - b)) k"
    using k by (simp add: chunks_of_def)
  show "local_chunk_begin (chunks_of b e t ! k) = boundary b e (min t (e - b)) k"
    and "local_chunk_end (chunks_of b e t ! k) = boundary b e (min t (e - b)) (Suc k)"
    and "thread_id (chunks_of b e t ! k) = k"
    unfolding nth by (rule nth_chunk_boundary[OF k])+
  show "boundary b e (min t (e - b)) k < boundary b e (min t (e - b)) (Suc k)"
    using n k by (rule boundary_mono)
qed

lemma boundary_ends:
  "0 < n \<Longrightarrow> boundary b e n 0 = b" "boundary b e n n = e"
  by (simp_all add: boundary_def)

lemma chunks_of_sum:
  assumes "b < e" "1 \<le> t"
  shows "(\<Sum>j<length (chunks_of b e t).
            mset [local_chunk_begin (chunks_of b e t ! j) ..< local_chunk_end (chunks_of b e t ! j)])
         = mset [b ..< e]"
proof -
  let ?n = "min t (e - b)"
  have n: "0 < ?n" using assms by simp
  have len: "length (chunks_of b e t) = ?n" by (simp add: chunks_of_def)
  have "(\<Sum>j<?n. mset [local_chunk_begin (chunks_of b e t ! j) ..< local_chunk_end (chunks_of b e t ! j)])
      = (\<Sum>j<?n. mset [boundary b e ?n j ..< boundary b e ?n (Suc j)])"
    by (rule sum.cong) (simp_all add: chunks_of_facts[OF assms])
  also have "\<dots> = mset [boundary b e ?n 0 ..< boundary b e ?n ?n]"
  proof -
    have "boundary b e ?n k \<le> boundary b e ?n (Suc k)" if "k < ?n" for k
      using chunks_of_facts(4)[OF assms that] by (rule less_imp_le)
    then show ?thesis using sum_mset_upt_chain[of ?n "boundary b e ?n"] by blast
  qed
  finally show ?thesis using n by (simp only: len boundary_ends)
qed

lemma chunks_of_concat:
  assumes "b < e" "1 \<le> t"
  shows "concat (map (\<lambda>c. [local_chunk_begin c ..< local_chunk_end c]) (chunks_of b e t)) = [b ..< e]"
proof -
  let ?n = "min t (e - b)"
  have n: "0 < ?n" using assms by simp
  have "map (\<lambda>c. [local_chunk_begin c ..< local_chunk_end c]) (chunks_of b e t) =
      map (\<lambda>k. [local_chunk_begin (nth_chunk b e ?n k) ..< local_chunk_end (nth_chunk b e ?n k)])
        [0 ..< ?n]"
    by (simp add: chunks_of_def comp_def)
  also have "\<dots> = map (\<lambda>k. [boundary b e ?n k ..< boundary b e ?n (Suc k)]) [0 ..< ?n]"
    by (rule map_cong) (simp_all add: nth_chunk_boundary)
  finally have "map (\<lambda>c. [local_chunk_begin c ..< local_chunk_end c]) (chunks_of b e t) =
      map (\<lambda>k. [boundary b e ?n k ..< boundary b e ?n (Suc k)]) [0 ..< ?n]" .
  moreover have "concat (map (\<lambda>k. [boundary b e ?n k ..< boundary b e ?n (Suc k)]) [0 ..< ?n])
      = [boundary b e ?n 0 ..< boundary b e ?n ?n]"
  proof -
    have "boundary b e ?n k \<le> boundary b e ?n (Suc k)" if "k < ?n" for k
      using chunks_of_facts(4)[OF assms that] by (rule less_imp_le)
    then show ?thesis using concat_upt_chain[of 0 ?n "boundary b e ?n"] by blast
  qed
  ultimately show ?thesis using n by (simp only: boundary_ends)
qed

lemma launched_dynamic_invs:
  assumes "b < e" "1 \<le> t"
  shows "protocol_inv (launched (map unit_of (chunks_of b e t)))"
    and "loops_wf (launched (map unit_of (chunks_of b e t)))"
    and "workers_inv (launched (map unit_of (chunks_of b e t)))"
    and "counter_inv (launched (map unit_of (chunks_of b e t)) :: 'e state)"
    and "quiet_inv env (chunks_of b e t) (launched (map unit_of (chunks_of b e t)))"
proof -
  have len: "length (chunks_of b e t) = min t (e - b)" by (simp add: chunks_of_def)
  have lek: "local_chunk_begin (chunks_of b e t ! k) \<le> local_chunk_end (chunks_of b e t ! k)"
    if "k < length (chunks_of b e t)" for k
  proof -
    have k: "k < min t (e - b)" using that len by simp
    show ?thesis using chunks_of_facts(4)[OF assms k]
      unfolding chunks_of_facts(1,2)[OF assms k] by (rule less_imp_le)
  qed
  have le: "\<forall>c \<in> set (chunks_of b e t). local_chunk_begin c \<le> local_chunk_end c"
    using lek by (metis in_set_conv_nth)
  have out: "\<forall>u \<in> set (map unit_of (chunks_of b e t) :: 'x unit_state list). lk_unit u = Out"
    by (auto simp: unit_of_def)
  have ph: "\<forall>u \<in> set (map unit_of (chunks_of b e t) :: 'x unit_state list). phase u = 0"
    by (auto simp: unit_of_def)
  show "protocol_inv (launched (map unit_of (chunks_of b e t)))"
    using out by (rule protocol_inv_launched)
  have "loop_wf (unit_of (chunks_of b e t ! k))" if "k < length (chunks_of b e t)" for k
    using lek[OF that] by (simp add: unit_of_def)
  then show "loops_wf (launched (map unit_of (chunks_of b e t)))"
    by (auto simp: loops_wf_def launched_def)
  show "workers_inv (launched (map unit_of (chunks_of b e t)))"
    using ph by (rule workers_inv_launched)
  show "counter_inv (launched (map unit_of (chunks_of b e t)) :: 'e state)"
    by (rule counter_inv_launched)
  show "quiet_inv env (chunks_of b e t) (launched (map unit_of (chunks_of b e t)))"
    using le by (rule quiet_inv_launched)
qed

lemma loops_wf_run: "loops_wf s \<Longrightarrow> loops_wf (run env sched s)"
  by (induction sched arbitrary: s) (simp_all add: run_def loops_wf_step)

lemma dynamic_can_finish:
  assumes "b < e" "1 \<le> t"
  shows "\<exists>sched' s'. async_for_each env ra b e t (sched @ sched') = Inr s' \<and> finished (caller s')"
proof -
  let ?s0 = "launched (map unit_of (chunks_of b e t)) :: 'a state"
  have "protocol_inv (run env sched ?s0)"
    using launched_dynamic_invs(1)[OF assms] by (rule protocol_inv_run)
  moreover have "loops_wf (run env sched ?s0)"
    using launched_dynamic_invs(2)[OF assms] by (rule loops_wf_run)
  ultimately obtain sched' where f: "finished (caller (run env sched' (run env sched ?s0)))"
    using can_finish by blast
  have "async_for_each env ra b e t (sched @ sched') = Inr (run env sched' (run env sched ?s0))"
    by (simp only: async_for_each_unfold[OF assms] run_append)
  then show ?thesis using f by blast
qed

lemma dynamic_quiet_finished:
  assumes be: "b < e" "1 \<le> t" and nr: "never_raises env"
    and s: "async_for_each env ra b e t sched = Inr s" and fin: "finished (caller s)"
  shows "caller s = Returned \<and>
         mset (map (fst \<circ> snd) (calls (trace s))) = mset [b ..< e] \<and>
         mset (map fst (sinks (trace s))) = mset [0 ..< min t (e - b)] \<and>
         mset (map snd (sinks (trace s))) = mset [1 ..< Suc (min t (e - b))] \<and>
         completed s = min t (e - b)"
proof -
  let ?s0 = "launched (map unit_of (chunks_of b e t)) :: 'a state"
  have s': "s = run env sched ?s0" using s by (simp add: async_for_each_unfold[OF be])
  have "protocol_inv s" unfolding s'
    using launched_dynamic_invs(1)[OF be] by (rule protocol_inv_run)
  then have j: "join_inv s" by (simp add: protocol_inv_def)
  have q: "quiet_inv env (chunks_of b e t) s" unfolding s'
    using nr launched_dynamic_invs(5)[OF be] by (rule quiet_inv_run)
  have w: "workers_inv s" unfolding s'
    using launched_dynamic_invs(3)[OF be] by (rule workers_inv_run)
  have c: "counter_inv s" unfolding s'
    using launched_dynamic_invs(4)[OF be] by (rule counter_inv_run)
  have len: "length (chunks_of b e t) = min t (e - b)" by (simp add: chunks_of_def)
  have sum: "(\<Sum>j<min t (e - b).
            mset [local_chunk_begin (chunks_of b e t ! j) ..< local_chunk_end (chunks_of b e t ! j)])
         = mset [b ..< e]"
    using chunks_of_sum[OF be] unfolding len .
  show ?thesis
    using quiet_finished[OF q j w c fin] unfolding len sum .
qed

lemma never_raises_quiet_env: "never_raises quiet_env"
  by (simp add: never_raises_def quiet_env_def)

lemma run_length: "length (futures (run env sched s)) = length (futures s)"
  by (induction sched arbitrary: s) (simp_all add: run_def)

lemma boundary_step:
  "Suc k < n \<Longrightarrow> boundary b e n (Suc k) - boundary b e n k = (e - b) div n"
  by (simp add: boundary_def)

section \<open>Claims about successful runs of the dynamic path\<close>

text \<open>
  C1, the claim as stated fails. It speaks of every requested thread count; with a
  thread count of 0 and a non-empty range the clamp \<open>min(threads, size)\<close> yields 0
  workers, which cannot cover the range, and the next statement divides the size by
  that 0. No chunk is produced and the callable is never applied.
\<close>

theorem zero_threads_no_partition:
  "partition_chunks True 0 1 0 = Inl Division_by_zero \<and>
   partition_chunks False 0 1 0 = Inl Division_by_zero \<and>
   async_for_each quiet_env True 0 1 0 [Worker 0, Main] = Inl Division_by_zero"
  by code_simp

text \<open>
  C1, amended. For every non-empty range and every requested thread count of at least 1,
  the dynamic \<open>async_for_each\<close> produces exactly \<open>actual_threads = min(threads, size)\<close>
  chunks, numbered in order; every chunk is non-empty and begins where the one before
  it ends, the first at \<open>begin\<close>; every non-last chunk has exactly
  \<open>size / actual_threads\<close> elements and the last one ends at \<open>end\<close>; listed in order
  the chunks are exactly \<open>[begin, end)\<close>. Every execution prefix extends to an
  execution in which the call has finished, with one future per chunk. If nothing
  raises, neither the callable on any element nor the progress sink nor \<open>get()\<close> on a
  future, every finished call has returned normally and the elements on which the
  callable was invoked are, as a multiset, exactly the elements of the range: each
  element once.
\<close>

theorem dynamic_partition_covers:
  assumes "b < e" "1 \<le> nthreads"
  shows "\<exists>cs. partition_chunks ra b e nthreads = Inr cs \<and>
           length cs = min nthreads (e - b) \<and>
           (\<forall>k < length cs.
              thread_id (cs ! k) = k \<and>
              local_chunk_begin (cs ! k) < local_chunk_end (cs ! k) \<and>
              local_chunk_begin (cs ! k) = (if k = 0 then b else local_chunk_end (cs ! (k - 1))) \<and>
              (Suc k < length cs \<longrightarrow>
                 local_chunk_end (cs ! k) - local_chunk_begin (cs ! k) = (e - b) div length cs) \<and>
              (Suc k = length cs \<longrightarrow> local_chunk_end (cs ! k) = e)) \<and>
           concat (map (\<lambda>c. [local_chunk_begin c ..< local_chunk_end c]) cs) = [b ..< e] \<and>
           (\<forall>sched. \<exists>sched' s'.
              async_for_each env ra b e nthreads (sched @ sched') = Inr s' \<and>
              finished (caller s') \<and> length (futures s') = length cs) \<and>
           (never_raises env \<longrightarrow>
              (\<forall>sched s. async_for_each env ra b e nthreads sched = Inr s \<longrightarrow>
                 finished (caller s) \<longrightarrow>
                 caller s = Returned \<and>
                 mset (map (fst \<circ> snd) (calls (trace s))) = mset [b ..< e]))"
proof -
  let ?n = "min nthreads (e - b)" and ?cs = "chunks_of b e nthreads"
  have n: "0 < ?n" using assms by simp
  have len: "length ?cs = ?n" by (simp add: chunks_of_def)
  have p: "partition_chunks ra b e nthreads = Inr ?cs"
    using partition_chunks_closed[OF assms] by (simp add: chunks_of_def)
  have each: "thread_id (?cs ! k) = k \<and>
      local_chunk_begin (?cs ! k) < local_chunk_end (?cs ! k) \<and>
      local_chunk_begin (?cs ! k) = (if k = 0 then b else local_chunk_end (?cs ! (k - 1))) \<and>
      (Suc k < length ?cs \<longrightarrow>
         local_chunk_end (?cs ! k) - local_chunk_begin (?cs ! k) = (e - b) div length ?cs) \<and>
      (Suc k = length ?cs \<longrightarrow> local_chunk_end (?cs ! k) = e)"
    if "k < length ?cs" for k
  proof -
    have k: "k < ?n" using that len by simp
    note f = chunks_of_facts[OF assms k]
    have prev: "local_chunk_end (?cs ! (k - 1)) = boundary b e ?n k" if "k \<noteq> 0"
    proof -
      have "k - 1 < ?n" using k by (rule le_less_trans[OF diff_le_self])
      then show ?thesis using chunks_of_facts(2)[OF assms, of "k - 1"] that by simp
    qed
    have size: "Suc k < ?n \<Longrightarrow> boundary b e ?n (Suc k) - boundary b e ?n k = (e - b) div ?n"
      by (rule boundary_step)
    have lst: "Suc k = ?n \<Longrightarrow> boundary b e ?n (Suc k) = e"
      using boundary_ends(2)[of b e ?n] by (simp only:)
    have fst: "k = 0 \<Longrightarrow> boundary b e ?n k = b"
      using boundary_ends(1)[OF n, of b e] by (simp only:)
    show ?thesis unfolding f(1,2,3) len using f(4) prev size lst fst by auto
  qed
  have fin: "\<exists>sched' s'. async_for_each env ra b e nthreads (sched @ sched') = Inr s' \<and>
      finished (caller s') \<and> length (futures s') = length ?cs" for sched
  proof -
    obtain sched' s' where s': "async_for_each env ra b e nthreads (sched @ sched') = Inr s'"
        "finished (caller s')"
      using dynamic_can_finish[OF assms] by blast
    have "s' = run env (sched @ sched') (launched (map unit_of ?cs))"
      using s'(1) by (simp add: async_for_each_unfold[OF assms])
    then have "length (futures s') = length ?cs"
      by (simp add: run_length launched_def)
    then show ?thesis using s' by blast
  qed
  have q: "never_raises env \<longrightarrow>
      (\<forall>sched s. async_for_each env ra b e nthreads sched = Inr s \<longrightarrow>
         finished (caller s) \<longrightarrow>
         caller s = Returned \<and>
         mset (map (fst \<circ> snd) (calls (trace s))) = mset [b ..< e])"
    using dynamic_quiet_finished[OF assms] by blast
  show ?thesis
    using p len each chunks_of_concat[OF assms] fin q
    by (intro exI[of _ ?cs] conjI allI impI) blast+
qed

theorem dynamic_partition_covers_witness:
  "(0::nat) < 3 \<and> (1::nat) \<le> 2 \<and> never_raises quiet_env \<and>
   partition_chunks True 0 3 2 =
     Inr [\<lparr>local_chunk_begin = 0, local_chunk_end = 1, idx_offset = 0, thread_id = 0\<rparr>,
          \<lparr>local_chunk_begin = 1, local_chunk_end = 3, idx_offset = 2, thread_id = 1\<rparr>] \<and>
   (\<exists>s. async_for_each quiet_env True 0 3 2
          (replicate 5 (Worker 0) @ replicate 7 (Worker 1) @ replicate 5 Main) = Inr s \<and>
        caller s = Returned \<and>
        mset (map (fst \<circ> snd) (calls (trace s))) = mset [0 ..< 3])"
proof -
  let ?r = "async_for_each quiet_env True 0 3 2
          (replicate 5 (Worker 0) @ replicate 7 (Worker 1) @ replicate 5 Main)"
  have "map_sum id caller ?r = Inr Returned" by code_simp
  then obtain s where s: "?r = Inr s" "caller s = Returned" by (cases ?r) auto
  have b: "(0::nat) < 3" "(1::nat) \<le> 2" by simp_all
  have "mset (map (fst \<circ> snd) (calls (trace s))) = mset [0 ..< 3]"
    using dynamic_partition_covers[OF b, of True quiet_env] never_raises_quiet_env s
    by (metis finished.simps(1))
  moreover have "partition_chunks True 0 3 2 =
     Inr [\<lparr>local_chunk_begin = 0, local_chunk_end = 1, idx_offset = 0, thread_id = 0\<rparr>,
          \<lparr>local_chunk_begin = 1, local_chunk_end = 3, idx_offset = 2, thread_id = 1\<rparr>]"
    by code_simp
  ultimately show ?thesis using s never_raises_quiet_env by simp
qed

text \<open>
  C7, the claim as stated fails. The increment of the counter and the call of the sink
  are two statements of the unit. With two workers over two elements: worker 0
  increments the counter to 1, worker 1 then increments it to 2 and calls the sink
  with 2, and only then worker 0 calls the sink with 1. Nothing is thrown, the call
  returns normally, and the sink has received 2 before 1.
\<close>

theorem sink_values_out_of_order:
  "map_sum id (\<lambda>s. (caller s, sinks (trace s), incrs (trace s)))
     (async_for_each quiet_env True 0 2 2
        (replicate 4 (Worker 0) @ replicate 5 (Worker 1) @ [Worker 0] @ replicate 5 Main)) =
   Inr (Returned, [(1, 2), (0, 1)], [(0, 1), (1, 2)])"
  by code_simp

text \<open>
  C7, amended. On the dynamic path, for a non-empty range, a thread count of at least 1
  and a run in which nothing raises (neither the callable nor the sink nor \<open>get()\<close>): every execution prefix extends to an execution in
  which the call has returned normally, and in every finished call the counter stands
  at \<open>actual_threads = min(threads, size)\<close>, the sink has been invoked exactly
  \<open>actual_threads\<close> times, once by each worker, and the values it received are
  \<open>1, ..., actual_threads\<close>, each once. The increments produce these values in
  increasing order; the order in which the sink receives them is not fixed.
\<close>

theorem progress_on_success:
  assumes "b < e" "1 \<le> nthreads" "never_raises env"
  shows "(\<forall>sched. \<exists>sched' s'.
            async_for_each env ra b e nthreads (sched @ sched') = Inr s' \<and> caller s' = Returned) \<and>
         (\<forall>sched s. async_for_each env ra b e nthreads sched = Inr s \<longrightarrow> finished (caller s) \<longrightarrow>
            caller s = Returned \<and>
            completed s = min nthreads (e - b) \<and>
            length (sinks (trace s)) = min nthreads (e - b) \<and>
            mset (map fst (sinks (trace s))) = mset [0 ..< min nthreads (e - b)] \<and>
            mset (map snd (sinks (trace s))) = mset [1 ..< Suc (min nthreads (e - b))] \<and>
            map snd (incrs (trace s)) = [1 ..< Suc (min nthreads (e - b))])"
proof -
  note be = assms(1,2)
  have fin: "caller s = Returned \<and>
            completed s = min nthreads (e - b) \<and>
            length (sinks (trace s)) = min nthreads (e - b) \<and>
            mset (map fst (sinks (trace s))) = mset [0 ..< min nthreads (e - b)] \<and>
            mset (map snd (sinks (trace s))) = mset [1 ..< Suc (min nthreads (e - b))] \<and>
            map snd (incrs (trace s)) = [1 ..< Suc (min nthreads (e - b))]"
    if s: "async_for_each env ra b e nthreads sched = Inr s" and f: "finished (caller s)"
    for sched s
  proof -
    note q = dynamic_quiet_finished[OF be assms(3) s f]
    have "size (mset (map fst (sinks (trace s)))) = size (mset [0 ..< min nthreads (e - b)])"
      using q by (simp only:)
    then have len: "length (sinks (trace s)) = min nthreads (e - b)" by simp
    have "map snd (incrs (trace s)) = [1 ..< Suc (completed s)]"
      using async_for_each_counter_inv[OF s] by (simp only: counter_inv_def)
    then have "map snd (incrs (trace s)) = [1 ..< Suc (min nthreads (e - b))]"
      using q by (simp only:)
    then show ?thesis using q len by blast
  qed
  have ex: "\<exists>sched' s'. async_for_each env ra b e nthreads (sched @ sched') = Inr s' \<and>
      caller s' = Returned" for sched
  proof -
    obtain sched' s' where s': "async_for_each env ra b e nthreads (sched @ sched') = Inr s'"
        "finished (caller s')"
      using dynamic_can_finish[OF be] by blast
    then show ?thesis using fin[OF s'] by blast
  qed
  show ?thesis using fin ex by blast
qed

theorem progress_on_success_witness:
  "(0::nat) < 2 \<and> (1::nat) \<le> 2 \<and> never_raises quiet_env \<and>
   (\<exists>s. async_for_each quiet_env True 0 2 2
          (replicate 4 (Worker 0) @ replicate 5 (Worker 1) @ [Worker 0] @ replicate 5 Main) = Inr s \<and>
        caller s = Returned \<and> sinks (trace s) = [(1, 2), (0, 1)] \<and> completed s = 2 \<and>
        mset (map snd (sinks (trace s))) = mset [1 ..< 3])"
proof -
  let ?r = "async_for_each quiet_env True 0 2 2
          (replicate 4 (Worker 0) @ replicate 5 (Worker 1) @ [Worker 0] @ replicate 5 Main)"
  have "map_sum id (\<lambda>s. (caller s, sinks (trace s))) ?r = Inr (Returned, [(1, 2), (0, 1)])"
    by code_simp
  then obtain s where s: "?r = Inr s" "caller s = Returned" "sinks (trace s) = [(1, 2), (0, 1)]"
    by (cases ?r) auto
  have b: "(0::nat) < 2" "(1::nat) \<le> 2" by simp_all
  have f: "finished (caller s)" using s(2) by simp
  have "completed s = min 2 (2 - 0) \<and>
      mset (map snd (sinks (trace s))) = mset [1 ..< Suc (min 2 (2 - 0))]"
    using progress_on_success[OF b never_raises_quiet_env, of True] s(1) f by blast
  then have "completed s = 2" "mset (map snd (sinks (trace s))) = mset [1 ..< 3]"
    by (simp_all del: upt_Suc add: eval_nat_numeral)
  then show ?thesis using s never_raises_quiet_env by simp
qed

section \<open>The empty range\<close>



























end
